theory Spec2Isabelle
  imports Main "HOL-Library.AList"
begin

section \<open>Python values\<close>

text \<open>
  The program is one Python script, \<^verbatim>\<open>app.py\<close>. A Python \<^verbatim>\<open>str\<close> is a sequence of
  Unicode code points, so a string is the list of its code points here (the values of
  \<^verbatim>\<open>ord\<close>, Python integers): the whitespace that
  \<^verbatim>\<open>strip\<close> and \<^verbatim>\<open>split\<close> remove includes code points beyond one byte, and the script
  itself writes the code points 949 (the Greek epsilon) and 8594 (the arrow of a reduce
  label). \<open>str\<close> turns an ASCII literal into such a list.
\<close>

type_synonym pstr = "int list"

definition str :: "string \<Rightarrow> pstr" where
  "str s = map of_char s"

text \<open>
  The exceptions the script can raise; \<open>StopScript\<close> is Streamlit's \<^verbatim>\<open>st.stop()\<close>,
  which ends the run of the script.
\<close>

datatype error = ValueError | KeyError | IndexError | StopIteration | RecursionError | StopScript

text \<open>
  A Python \<^verbatim>\<open>set\<close> is a list without duplicates; \<^verbatim>\<open>add\<close> appends an element that is
  not there yet, \<^verbatim>\<open>update\<close> adds the elements of another collection one by one, and
  \<^verbatim>\<open>set(xs)\<close> builds a set from a collection. A \<^verbatim>\<open>for\<close> loop over a set follows the
  list. CPython iterates a set in the order of its hash table; the properties below are
  stated on the elements (\<open>set xs\<close>) wherever the script's result depends on them only.
\<close>

definition set_add :: "'a \<Rightarrow> 'a list \<Rightarrow> 'a list" where
  "set_add x s = (if x \<in> set s then s else s @ [x])"

definition set_update :: "'a list \<Rightarrow> 'a list \<Rightarrow> 'a list" where
  "set_update s xs = fold set_add xs s"

definition pyset :: "'a list \<Rightarrow> 'a list" where
  "pyset xs = set_update [] xs"

text \<open>\<^verbatim>\<open>s - t\<close> on sets.\<close>

definition set_minus :: "'a list \<Rightarrow> 'a list \<Rightarrow> 'a list" where
  "set_minus s t = filter (\<lambda>x. x \<notin> set t) s"

text \<open>
  A \<^verbatim>\<open>dict\<close> is an association list in insertion order with distinct keys:
  \<^verbatim>\<open>d[k] = v\<close> is \<open>AList.update k v d\<close> (an existing key keeps its place, a new key goes
  to the end), \<^verbatim>\<open>k in d\<close> is \<open>k \<in> fst ` set d\<close>, a lookup is \<open>map_of d k\<close>.
\<close>

type_synonym ('k, 'v) dict = "('k \<times> 'v) list"

definition dict_update :: "('k, 'v) dict \<Rightarrow> ('k, 'v) dict \<Rightarrow> ('k, 'v) dict" where
  "dict_update d other = fold (\<lambda>(k, v). AList.update k v) other d"

section \<open>String operations\<close>

text \<open>The code points for which \<^verbatim>\<open>str.isspace\<close> holds.\<close>

definition is_space :: "int \<Rightarrow> bool" where
  "is_space c = ((9 \<le> c \<and> c \<le> 13) \<or> (28 \<le> c \<and> c \<le> 32) \<or> c = 133 \<or> c = 160
      \<or> c = 5760 \<or> (8192 \<le> c \<and> c \<le> 8202) \<or> c = 8232 \<or> c = 8233 \<or> c = 8239
      \<or> c = 8287 \<or> c = 12288)"

definition strip :: "pstr \<Rightarrow> pstr" where
  "strip s = rev (dropWhile is_space (rev (dropWhile is_space s)))"

text \<open>\<^verbatim>\<open>s.split()\<close>: the maximal runs of non-whitespace.\<close>

fun split_ws_aux :: "pstr \<Rightarrow> pstr \<Rightarrow> pstr list" where
  "split_ws_aux acc [] = (if acc = [] then [] else [rev acc])"
| "split_ws_aux acc (c # cs) =
     (if is_space c then (if acc = [] then split_ws_aux [] cs else rev acc # split_ws_aux [] cs)
      else split_ws_aux (c # acc) cs)"

definition split_ws :: "pstr \<Rightarrow> pstr list" where
  "split_ws s = split_ws_aux [] s"

text \<open>
  \<^verbatim>\<open>s.split(sep)\<close> for a non-empty separator: the pieces between the occurrences of
  \<open>sep\<close>, found from the left without overlap. \<open>acc\<close> is the piece read so far,
  reversed.
\<close>

definition starts_with :: "pstr \<Rightarrow> pstr \<Rightarrow> bool" where
  "starts_with sep s = (take (length sep) s = sep)"

function split_sep_aux :: "pstr \<Rightarrow> pstr \<Rightarrow> pstr \<Rightarrow> pstr list" where
  "split_sep_aux sep acc [] = [rev acc]"
| "split_sep_aux sep acc (c # cs) =
     (if starts_with sep (c # cs)
      then rev acc # split_sep_aux sep [] (drop (length sep - 1) cs)
      else split_sep_aux sep (c # acc) cs)"
  by pat_completeness auto
termination
  by (relation "measure (\<lambda>(sep, acc, s). length s)") auto

definition split_sep :: "pstr \<Rightarrow> pstr \<Rightarrow> pstr list" where
  "split_sep sep s = split_sep_aux sep [] s"

text \<open>\<^verbatim>\<open>sep in s\<close>: \<open>sep\<close> occurs in \<open>s\<close>.\<close>

fun contains :: "pstr \<Rightarrow> pstr \<Rightarrow> bool" where
  "contains sep [] = (sep = [])"
| "contains sep (c # cs) = (starts_with sep (c # cs) \<or> contains sep cs)"

text \<open>\<^verbatim>\<open>sep.join(xs)\<close>.\<close>

fun join :: "pstr \<Rightarrow> pstr list \<Rightarrow> pstr" where
  "join sep [] = []"
| "join sep [x] = x"
| "join sep (x # y # ys) = x @ sep @ join sep (y # ys)"

section \<open>Reading the grammar\<close>

text \<open>
  A grammar is a \<^verbatim>\<open>dict\<close> from a nonterminal to the list of its alternatives, each a
  list of symbols.
\<close>

type_synonym grammar = "(pstr, pstr list list) dict"

text \<open>
  The body of the loop of \<^verbatim>\<open>get_grammar\<close> for a line that contains the separator:
  \<^verbatim>\<open>lhs, rhs = line.split('->')\<close> raises \<^verbatim>\<open>ValueError\<close> unless the split has exactly two
  pieces.
\<close>

definition rhs_productions :: "pstr \<Rightarrow> pstr list list" where
  "rhs_productions rhs = map (\<lambda>prod. split_ws (strip prod)) (split_sep (str ''|'') rhs)"

definition add_rule :: "grammar \<Rightarrow> pstr \<Rightarrow> error + grammar" where
  "add_rule grammar line =
     (case split_sep (str ''->'') line of
        [lhs, rhs] \<Rightarrow>
          (let lhs = strip lhs in
           case map_of grammar lhs of
             Some alts \<Rightarrow> Inr (AList.update lhs (alts @ rhs_productions rhs) grammar)
           | None \<Rightarrow> Inr (AList.update lhs (rhs_productions rhs) grammar))
      | _ \<Rightarrow> Inl ValueError)"

text \<open>The message that \<^verbatim>\<open>st.sidebar.error\<close> shows for a line without the separator.\<close>

definition invalid_rule_message :: "pstr \<Rightarrow> pstr" where
  "invalid_rule_message line =
     str ''Invalid rule format: '' @ line @ str ''. Use '' @ [39] @ str ''->'' @ [39]
       @ str '' to separate LHS and RHS.''"

text \<open>
  The loop over the lines. The result is the exception raised, or the value returned
  (\<open>None\<close> is Python's \<^verbatim>\<open>None\<close>) with the messages shown in the sidebar.
\<close>

fun get_grammar_lines :: "grammar \<Rightarrow> pstr list \<Rightarrow> error + (grammar option \<times> pstr list)" where
  "get_grammar_lines grammar [] = Inr (Some grammar, [])"
| "get_grammar_lines grammar (line # lines) =
     (if \<not> contains (str ''->'') line then Inr (None, [invalid_rule_message line])
      else case add_rule grammar line of
             Inl e \<Rightarrow> Inl e
           | Inr grammar' \<Rightarrow> get_grammar_lines grammar' lines)"

definition get_grammar :: "pstr \<Rightarrow> error + (grammar option \<times> pstr list)" where
  "get_grammar grammar_text = get_grammar_lines [] (split_sep [10] (strip grammar_text))"

section \<open>Augmentation\<close>

text \<open>\<^verbatim>\<open>next(iter(d), None)\<close>: the first key of a \<^verbatim>\<open>dict\<close>, if any.\<close>

definition first_key :: "('k, 'v) dict \<Rightarrow> 'k option" where
  "first_key d = (case d of [] \<Rightarrow> None | (k, v) # rest \<Rightarrow> Some k)"

text \<open>The name \<^verbatim>\<open>S'\<close> of the new start symbol.\<close>

definition S_prime :: pstr where
  "S_prime = [83, 39]"

text \<open>
  \<^verbatim>\<open>if not start_symbol\<close> holds for \<^verbatim>\<open>None\<close> and for the empty string; the script then
  shows an error and stops.
\<close>

definition augment_grammar :: "grammar \<Rightarrow> error + grammar" where
  "augment_grammar grammar =
     (case first_key grammar of
        None \<Rightarrow> Inl StopScript
      | Some start_symbol \<Rightarrow>
          if start_symbol = [] then Inl StopScript
          else Inr (dict_update [(S_prime, [[start_symbol]])] grammar))"

section \<open>The LR(0) automaton\<close>

text \<open>
  An item is the tuple \<^verbatim>\<open>(lhs, rhs, dot_pos)\<close>; a state is a set of items.
\<close>

type_synonym item = "pstr \<times> pstr list \<times> nat"

text \<open>
  One pass of the \<^verbatim>\<open>while\<close> loop of \<^verbatim>\<open>closure\<close>: the loop over the items of
  \<^verbatim>\<open>closure_set\<close> and, inside it, the loop over the productions of the symbol after
  the dot. The pair carried along is \<^verbatim>\<open>(new_items, added)\<close>.
\<close>

definition closure_production ::
    "item list \<Rightarrow> pstr \<Rightarrow> pstr list \<Rightarrow> item list \<times> bool \<Rightarrow> item list \<times> bool" where
  "closure_production closure_set symbol production acc =
     (case acc of (new_items, added) \<Rightarrow>
        let new_item = (symbol, production, 0) in
        if new_item \<notin> set closure_set then (set_add new_item new_items, True)
        else (new_items, added))"

definition closure_item ::
    "grammar \<Rightarrow> item list \<Rightarrow> item \<Rightarrow> item list \<times> bool \<Rightarrow> item list \<times> bool" where
  "closure_item grammar closure_set it acc =
     (case it of (lhs, rhs, dot_pos) \<Rightarrow>
        if dot_pos < length rhs then
          (let symbol = rhs ! dot_pos in
           case map_of grammar symbol of
             Some productions \<Rightarrow> fold (closure_production closure_set symbol) productions acc
           | None \<Rightarrow> acc)
        else acc)"

definition closure_pass :: "grammar \<Rightarrow> item list \<Rightarrow> item list \<times> bool" where
  "closure_pass grammar closure_set = fold (closure_item grammar closure_set) closure_set ([], False)"

function closure_loop :: "grammar \<Rightarrow> item list \<Rightarrow> item list" where
  "closure_loop grammar closure_set =
     (case closure_pass grammar closure_set of (new_items, added) \<Rightarrow>
        if added then closure_loop grammar (set_update closure_set new_items)
        else set_update closure_set new_items)"
  by pat_completeness auto

text \<open>
  Facts about the set operations, and what one pass adds: the items \<open>expand\<close> asks
  for that \<^verbatim>\<open>closure_set\<close> does not have yet. All items a closure can add are
  \<open>grammar_items\<close>, a finite set, which bounds the number of passes.
\<close>

lemma set_set_add: "set (set_add x s) = insert x (set s)"
  by (auto simp: set_add_def)

lemma distinct_set_add: "distinct s \<Longrightarrow> distinct (set_add x s)"
  by (auto simp: set_add_def)

lemma set_fold_set_add: "set (fold set_add xs s) = set s \<union> set xs"
  by (induction xs arbitrary: s) (auto simp: set_set_add)

lemma distinct_fold_set_add: "distinct s \<Longrightarrow> distinct (fold set_add xs s)"
  by (induction xs arbitrary: s) (auto simp: distinct_set_add)

lemma set_set_update: "set (set_update s xs) = set s \<union> set xs"
  by (simp add: set_update_def set_fold_set_add)

lemma distinct_set_update: "distinct s \<Longrightarrow> distinct (set_update s xs)"
  by (simp add: set_update_def distinct_fold_set_add)

lemma set_update_Nil: "set_update s [] = s"
  by (simp add: set_update_def)

lemma set_pyset: "set (pyset xs) = set xs"
  by (simp add: pyset_def set_set_update)

lemma distinct_pyset: "distinct (pyset xs)"
  by (simp add: pyset_def distinct_set_update)

lemma fold_set_add_id: "set xs \<subseteq> set s \<Longrightarrow> fold set_add xs s = s"
  by (induction xs arbitrary: s) (auto simp: set_add_def)

lemma fold_set_add_distinct: "distinct xs \<Longrightarrow> set xs \<inter> set s = {} \<Longrightarrow> fold set_add xs s = s @ xs"
proof (induction xs arbitrary: s)
  case Nil
  then show ?case by simp
next
  case (Cons x xs)
  then have "set_add x s = s @ [x]" by (simp add: set_add_def)
  moreover have "fold set_add xs (s @ [x]) = (s @ [x]) @ xs"
    using Cons.prems by (intro Cons.IH) auto
  ultimately show ?case by simp
qed

lemma pyset_distinct: "distinct xs \<Longrightarrow> pyset xs = xs"
  using fold_set_add_distinct [of xs "[]"] by (simp add: pyset_def set_update_def)

definition expand :: "grammar \<Rightarrow> item set \<Rightarrow> item set" where
  "expand g X = {(r ! d, p, 0) | l r d p prods.
      (l, r, d) \<in> X \<and> d < length r \<and> map_of g (r ! d) = Some prods \<and> p \<in> set prods}"

definition grammar_items :: "grammar \<Rightarrow> item set" where
  "grammar_items g = {(sy, p, 0) | sy p prods. map_of g sy = Some prods \<and> p \<in> set prods}"

lemma finite_grammar_items: "finite (grammar_items g)"
proof -
  have "grammar_items g \<subseteq> (\<Union>(sy, prods) \<in> set g. (\<lambda>p. (sy, p, 0)) ` set prods)"
    by (auto simp: grammar_items_def dest!: map_of_SomeD)
  moreover have "finite (\<Union>(sy, prods) \<in> set g. (\<lambda>p. (sy, p, 0::nat)) ` set prods)"
    by auto
  ultimately show ?thesis by (rule finite_subset)
qed

lemma expand_subset: "expand g X \<subseteq> grammar_items g"
  by (auto simp: expand_def grammar_items_def)

lemma expand_mono: "X \<subseteq> Y \<Longrightarrow> expand g X \<subseteq> expand g Y"
  by (fastforce simp: expand_def)

lemma expand_Un: "expand g (X \<union> Y) = expand g X \<union> expand g Y"
  by (fastforce simp: expand_def)

lemma expand_empty: "expand g {} = {}"
  by (simp add: expand_def)

lemma closure_production_step:
  "closure_production cs sy p acc =
     (if (sy, p, 0) \<notin> set cs then (set_add (sy, p, 0) (fst acc), True) else acc)"
  by (cases acc) (simp add: closure_production_def)

lemma closure_production_fold:
  "fold (closure_production cs sy) prods acc =
     (fold set_add (filter (\<lambda>it. it \<notin> set cs) (map (\<lambda>p. (sy, p, 0)) prods)) (fst acc),
      snd acc \<or> (\<exists>p \<in> set prods. (sy, p, 0) \<notin> set cs))"
proof (induction prods arbitrary: acc)
  case Nil
  then show ?case by simp
next
  case (Cons p prods)
  show ?case
    unfolding fold_simps o_apply Cons.IH by (auto simp: closure_production_step)
qed

lemma closure_item_set:
  "set (fst (closure_item g cs it acc)) = set (fst acc) \<union> (expand g {it} - set cs)"
  "snd (closure_item g cs it acc) = (snd acc \<or> expand g {it} - set cs \<noteq> {})"
proof -
  obtain l r d where it: "it = (l, r, d)" by (cases it)
  show "set (fst (closure_item g cs it acc)) = set (fst acc) \<union> (expand g {it} - set cs)"
    by (auto simp: it closure_item_def closure_production_fold set_fold_set_add expand_def Let_def
        split: option.splits)
  show "snd (closure_item g cs it acc) = (snd acc \<or> expand g {it} - set cs \<noteq> {})"
    by (auto simp: it closure_item_def closure_production_fold expand_def Let_def
        split: option.splits)
qed

lemma closure_items_fold:
  "set (fst (fold (closure_item g cs) xs acc)) = set (fst acc) \<union> (expand g (set xs) - set cs)
   \<and> snd (fold (closure_item g cs) xs acc) = (snd acc \<or> expand g (set xs) - set cs \<noteq> {})"
proof (induction xs arbitrary: acc)
  case Nil
  then show ?case by (simp add: expand_empty)
next
  case (Cons x xs)
  have "expand g (set (x # xs)) = expand g {x} \<union> expand g (set xs)"
    using expand_Un [of g "{x}" "set xs"] by simp
  then show ?case
    by (auto simp: Cons.IH closure_item_set)
qed

lemma closure_pass_set:
  "set (fst (closure_pass g cs)) = expand g (set cs) - set cs"
  "snd (closure_pass g cs) = (expand g (set cs) - set cs \<noteq> {})"
  using closure_items_fold [of g cs cs "([], False)"] by (simp_all add: closure_pass_def)

lemma closure_loop_decreases:
  assumes "(new_items, added) = closure_pass g cs" and added
  shows "card (grammar_items g - set (set_update cs new_items)) < card (grammar_items g - set cs)"
proof -
  have new: "set new_items = expand g (set cs) - set cs"
    using closure_pass_set(1) [of g cs] assms(1) by (metis fst_conv)
  have "expand g (set cs) - set cs \<noteq> {}"
    using closure_pass_set(2) [of g cs] assms by (metis snd_conv)
  then obtain it where it: "it \<in> expand g (set cs)" "it \<notin> set cs" by auto
  have "grammar_items g - set (set_update cs new_items) \<subset> grammar_items g - set cs"
    using it expand_subset [of g "set cs"] by (auto simp: set_set_update new)
  then show ?thesis
    by (intro psubset_card_mono) (auto simp: finite_grammar_items)
qed

termination closure_loop
  by (relation "measure (\<lambda>(g, cs). card (grammar_items g - set cs))")
    (simp_all add: closure_loop_decreases)

declare closure_loop.simps [simp del]

definition closure :: "item list \<Rightarrow> grammar \<Rightarrow> item list" where
  "closure items grammar = closure_loop grammar (pyset items)"


text \<open>
  \<^verbatim>\<open>goto\<close>: the items with the dot before \<open>symbol\<close>, the dot moved over it, and their
  closure.
\<close>

definition goto_item :: "pstr \<Rightarrow> item \<Rightarrow> item list \<Rightarrow> item list" where
  "goto_item symbol it next_items =
     (case it of (lhs, rhs, dot_pos) \<Rightarrow>
        if dot_pos < length rhs \<and> rhs ! dot_pos = symbol
        then set_add (lhs, rhs, dot_pos + 1) next_items
        else next_items)"

definition goto :: "item list \<Rightarrow> pstr \<Rightarrow> grammar \<Rightarrow> item list" where
  "goto items symbol grammar =
     (let next_items = fold (goto_item symbol) items [] in
      if next_items \<noteq> [] then closure next_items grammar else [])"

text \<open>
  \<^verbatim>\<open>state_indices\<close> is a \<^verbatim>\<open>dict\<close> whose keys are \<^verbatim>\<open>frozenset\<close>s: two keys are the same
  key when they have the same elements.
\<close>

definition frozenset_eq :: "'a list \<Rightarrow> 'a list \<Rightarrow> bool" where
  "frozenset_eq a b = (list_all (\<lambda>x. x \<in> set b) a \<and> list_all (\<lambda>x. x \<in> set a) b)"

fun fs_lookup :: "('a list \<times> 'v) list \<Rightarrow> 'a list \<Rightarrow> 'v option" where
  "fs_lookup [] key = None"
| "fs_lookup ((k, v) # d) key = (if frozenset_eq k key then Some v else fs_lookup d key)"

fun fs_update :: "'a list \<Rightarrow> 'v \<Rightarrow> ('a list \<times> 'v) list \<Rightarrow> ('a list \<times> 'v) list" where
  "fs_update key v [] = [(key, v)]"
| "fs_update key v ((k, w) # d) =
     (if frozenset_eq k key then (k, v) # d else (k, w) # fs_update key v d)"

text \<open>The symbols after a dot in a state: the set comprehension of the worklist loop.\<close>

definition symbols_after_dot :: "item list \<Rightarrow> pstr list" where
  "symbols_after_dot state =
     pyset (map (\<lambda>(lhs, rhs, pos). rhs ! pos) (filter (\<lambda>(lhs, rhs, pos). pos < length rhs) state))"

text \<open>
  The variables of the worklist loop: \<^verbatim>\<open>states\<close>, \<^verbatim>\<open>state_indices\<close>, \<^verbatim>\<open>transitions\<close>
  and \<^verbatim>\<open>queue\<close>.
\<close>

type_synonym transitions = "(nat \<times> pstr, nat) dict"

type_synonym lr0 = "item list list \<times> (item list \<times> nat) list \<times> transitions \<times> item list list"

text \<open>The body of \<^verbatim>\<open>for symbol in symbols\<close>.\<close>

definition lr0_symbol :: "grammar \<Rightarrow> item list \<Rightarrow> nat \<Rightarrow> pstr \<Rightarrow> lr0 \<Rightarrow> lr0" where
  "lr0_symbol augmented_grammar state state_index symbol =
     (\<lambda>(states, state_indices, transitions, queue).
        let new_state = goto state symbol augmented_grammar in
        case fs_lookup state_indices new_state of
          None \<Rightarrow>
            (let states' = states @ [new_state];
                 new_index = length states' - 1
             in (states', fs_update new_state new_index state_indices,
                 AList.update (state_index, symbol) new_index transitions,
                 queue @ [new_state]))
        | Some new_index \<Rightarrow>
            (states, state_indices,
             AList.update (state_index, symbol) new_index transitions, queue))"

text \<open>
  The \<^verbatim>\<open>while queue\<close> loop. \<open>None\<close> stands for a loop that never ends;
  \<^verbatim>\<open>state_indices[frozenset(state)]\<close> raises \<^verbatim>\<open>KeyError\<close> for a missing key.
\<close>

partial_function (option) lr0_loop ::
    "grammar \<Rightarrow> item list list \<Rightarrow> (item list \<times> nat) list \<Rightarrow> transitions \<Rightarrow> item list list
      \<Rightarrow> (error + lr0) option" where
  "lr0_loop augmented_grammar states state_indices transitions queue =
     (case queue of
        [] \<Rightarrow> Some (Inr (states, state_indices, transitions, queue))
      | state # queue' \<Rightarrow>
          (case fs_lookup state_indices state of
             None \<Rightarrow> Some (Inl KeyError)
           | Some state_index \<Rightarrow>
               (case fold (lr0_symbol augmented_grammar state state_index)
                       (symbols_after_dot state) (states, state_indices, transitions, queue') of
                  (states', state_indices', transitions', queue'') \<Rightarrow>
                    lr0_loop augmented_grammar states' state_indices' transitions' queue'')))"

declare lr0_loop.simps [code]

text \<open>
  \<^verbatim>\<open>generate_lr0_items\<close>: \<^verbatim>\<open>next(iter(d))\<close> raises \<^verbatim>\<open>StopIteration\<close> on an empty
  \<^verbatim>\<open>dict\<close>, and the first production of the start symbol is read with an index.
\<close>

definition generate_lr0_items ::
    "grammar \<Rightarrow> (error + item list list \<times> transitions) option" where
  "generate_lr0_items augmented_grammar =
     (case first_key augmented_grammar of
        None \<Rightarrow> Some (Inl StopIteration)
      | Some start_symbol \<Rightarrow>
          (case map_of augmented_grammar start_symbol of
             None \<Rightarrow> Some (Inl KeyError)
           | Some [] \<Rightarrow> Some (Inl IndexError)
           | Some (production # others) \<Rightarrow>
               (let initial_item = (start_symbol, production, 0);
                    initial_state = closure [initial_item] augmented_grammar
                in case lr0_loop augmented_grammar [initial_state]
                          (fs_update initial_state 0 []) [] [initial_state] of
                     None \<Rightarrow> None
                   | Some (Inl e) \<Rightarrow> Some (Inl e)
                   | Some (Inr (states, state_indices, transitions, queue)) \<Rightarrow>
                       Some (Inr (states, transitions)))))"

section \<open>FIRST and FOLLOW\<close>

text \<open>
  \<^verbatim>\<open>first\<close> and \<^verbatim>\<open>follow\<close> are global \<^verbatim>\<open>dict\<close>s from a symbol to a set, filled by the
  recursive functions \<^verbatim>\<open>compute_first\<close> and \<^verbatim>\<open>compute_follow\<close>, which return the
  entry of their symbol. The models return the \<^verbatim>\<open>dict\<close> after the call. Their first
  argument is the number of nested calls the interpreter still allows: a call beyond it
  raises \<^verbatim>\<open>RecursionError\<close>.
\<close>

type_synonym symbol_sets = "(pstr, pstr list) dict"

definition epsilon :: pstr where
  "epsilon = [949]"

definition dollar :: pstr where
  "dollar = str ''$''"

text \<open>\<^verbatim>\<open>d[k]\<close>, \<^verbatim>\<open>d[k].add(x)\<close> and \<^verbatim>\<open>d[k].update(xs)\<close>: \<^verbatim>\<open>KeyError\<close> for a missing key.\<close>

definition dict_get :: "('k, 'v) dict \<Rightarrow> 'k \<Rightarrow> error + 'v" where
  "dict_get d k = (case map_of d k of None \<Rightarrow> Inl KeyError | Some v \<Rightarrow> Inr v)"

definition sets_update :: "symbol_sets \<Rightarrow> pstr \<Rightarrow> pstr list \<Rightarrow> error + symbol_sets" where
  "sets_update d k xs =
     (case map_of d k of
        None \<Rightarrow> Inl KeyError
      | Some s \<Rightarrow> Inr (AList.update k (set_update s xs) d))"

definition sets_add :: "symbol_sets \<Rightarrow> pstr \<Rightarrow> pstr \<Rightarrow> error + symbol_sets" where
  "sets_add d k x = sets_update d k [x]"

text \<open>
  \<^verbatim>\<open>compute_first\<close>, the loop over the productions of the symbol, and the loop over the
  symbols of one production (its equation for the empty list is the \<^verbatim>\<open>else\<close> of the
  \<^verbatim>\<open>for\<close>, taken when the loop ends without \<^verbatim>\<open>break\<close>). \<open>first_merge\<close> is the part of
  the loop's body after the recursive call: the update of \<^verbatim>\<open>first[symbol]\<close> and the test
  for \<^verbatim>\<open>break\<close>.
\<close>

definition first_merge :: "symbol_sets \<Rightarrow> pstr \<Rightarrow> pstr \<Rightarrow> error + symbol_sets \<times> bool" where
  "first_merge first symbol sub_symbol =
     (case dict_get first sub_symbol of
        Inl e \<Rightarrow> Inl e
      | Inr sub_first \<Rightarrow>
          (case sets_update first symbol (set_minus sub_first [epsilon]) of
             Inl e \<Rightarrow> Inl e
           | Inr first' \<Rightarrow>
               (case dict_get first' sub_symbol of
                  Inl e \<Rightarrow> Inl e
                | Inr sub_first' \<Rightarrow> Inr (first', epsilon \<notin> set sub_first'))))"

function compute_first :: "nat \<Rightarrow> grammar \<Rightarrow> pstr \<Rightarrow> symbol_sets \<Rightarrow> error + symbol_sets"
  and first_productions ::
    "nat \<Rightarrow> grammar \<Rightarrow> pstr \<Rightarrow> pstr list list \<Rightarrow> symbol_sets \<Rightarrow> error + symbol_sets"
  and first_sub_symbols ::
    "nat \<Rightarrow> grammar \<Rightarrow> pstr \<Rightarrow> pstr list \<Rightarrow> symbol_sets \<Rightarrow> error + symbol_sets" where
  "compute_first 0 grammar symbol first = Inl RecursionError"
| "compute_first (Suc depth) grammar symbol first =
     (if symbol \<in> fst ` set first then Inr first
      else first_productions depth grammar symbol
             (case map_of grammar symbol of None \<Rightarrow> [] | Some productions \<Rightarrow> productions)
             (AList.update symbol [] first))"
| "first_productions depth grammar symbol [] first = Inr first"
| "first_productions depth grammar symbol (production # productions) first =
     (case (if production = [[]] then sets_add first symbol epsilon
            else first_sub_symbols depth grammar symbol production first) of
        Inl e \<Rightarrow> Inl e
      | Inr first' \<Rightarrow> first_productions depth grammar symbol productions first')"
| "first_sub_symbols depth grammar symbol [] first = sets_add first symbol epsilon"
| "first_sub_symbols depth grammar symbol (sub_symbol # rest) first =
     (if sub_symbol \<notin> fst ` set grammar then sets_add first symbol sub_symbol
      else
        (case compute_first depth grammar sub_symbol first of
           Inl e \<Rightarrow> Inl e
         | Inr first' \<Rightarrow>
             (case first_merge first' symbol sub_symbol of
                Inl e \<Rightarrow> Inl e
              | Inr (first'', stop) \<Rightarrow>
                  if stop then Inr first''
                  else first_sub_symbols depth grammar symbol rest first'')))"
  by pat_completeness auto
termination
  by (relation "inv_image (less_than <*lex*> less_than) (\<lambda>x. case x of
        Inl (depth, g, s, f) \<Rightarrow> (depth, 0)
      | Inr (Inl (depth, g, s, ps, f)) \<Rightarrow> (depth, sum_list (map (\<lambda>p. length p + 2) ps))
      | Inr (Inr (depth, g, s, xs, f)) \<Rightarrow> (depth, length xs + 1))") auto

text \<open>\<^verbatim>\<open>for nt in grammar: compute_first(nt)\<close>, from the empty \<^verbatim>\<open>first\<close>.\<close>

fun first_loop :: "nat \<Rightarrow> grammar \<Rightarrow> pstr list \<Rightarrow> symbol_sets \<Rightarrow> error + symbol_sets" where
  "first_loop limit grammar [] first = Inr first"
| "first_loop limit grammar (nt # nts) first =
     (case compute_first limit grammar nt first of
        Inl e \<Rightarrow> Inl e
      | Inr first' \<Rightarrow> first_loop limit grammar nts first')"

definition first_sets :: "nat \<Rightarrow> grammar \<Rightarrow> error + symbol_sets" where
  "first_sets limit grammar = first_loop limit grammar (map fst grammar) []"

text \<open>
  \<^verbatim>\<open>compute_follow\<close> reads the global \<^verbatim>\<open>first\<close>. \<open>follow_next\<close> is the branch for a
  symbol followed by \<^verbatim>\<open>next_symbol\<close>, up to the test whether the epsilon marker is in
  \<^verbatim>\<open>first[next_symbol]\<close>, whose value it returns; \<open>follow_merge\<close> is
  \<^verbatim>\<open>follow[symbol].update(...)\<close> with the set that \<^verbatim>\<open>compute_follow(lhs)\<close> returned, which
  is \<^verbatim>\<open>follow[lhs]\<close>.
\<close>

definition follow_next ::
    "grammar \<Rightarrow> symbol_sets \<Rightarrow> pstr \<Rightarrow> pstr \<Rightarrow> symbol_sets \<Rightarrow> error + symbol_sets \<times> bool" where
  "follow_next grammar first symbol next_symbol follow =
     (if next_symbol \<notin> fst ` set grammar then
        (case sets_add follow symbol next_symbol of
           Inl e \<Rightarrow> Inl e
         | Inr follow1 \<Rightarrow> Inr (follow1, False))
      else
        (case dict_get first next_symbol of
           Inl e \<Rightarrow> Inl e
         | Inr next_first \<Rightarrow>
             (case sets_update follow symbol (set_minus next_first [epsilon]) of
                Inl e \<Rightarrow> Inl e
              | Inr follow1 \<Rightarrow> Inr (follow1, epsilon \<in> set next_first))))"

definition follow_merge :: "symbol_sets \<Rightarrow> pstr \<Rightarrow> pstr \<Rightarrow> error + symbol_sets" where
  "follow_merge follow symbol lhs =
     (case dict_get follow lhs of
        Inl e \<Rightarrow> Inl e
      | Inr lhs_follow \<Rightarrow> sets_update follow symbol lhs_follow)"

text \<open>
  \<^verbatim>\<open>compute_follow\<close>, the loop over \<^verbatim>\<open>grammar.items()\<close>, the loop over the alternatives
  of one nonterminal, and the loop over the positions of one alternative, which carries
  the symbols from position \<^verbatim>\<open>i\<close> on: \<^verbatim>\<open>i + 1 < len(rhs)\<close> holds when a symbol follows.
\<close>

function compute_follow ::
    "nat \<Rightarrow> grammar \<Rightarrow> symbol_sets \<Rightarrow> pstr \<Rightarrow> symbol_sets \<Rightarrow> error + symbol_sets"
  and follow_items ::
    "nat \<Rightarrow> grammar \<Rightarrow> symbol_sets \<Rightarrow> pstr \<Rightarrow> (pstr \<times> pstr list list) list \<Rightarrow> symbol_sets
      \<Rightarrow> error + symbol_sets"
  and follow_rhs_list ::
    "nat \<Rightarrow> grammar \<Rightarrow> symbol_sets \<Rightarrow> pstr \<Rightarrow> pstr \<Rightarrow> pstr list list \<Rightarrow> symbol_sets
      \<Rightarrow> error + symbol_sets"
  and follow_positions ::
    "nat \<Rightarrow> grammar \<Rightarrow> symbol_sets \<Rightarrow> pstr \<Rightarrow> pstr \<Rightarrow> pstr list \<Rightarrow> symbol_sets
      \<Rightarrow> error + symbol_sets" where
  "compute_follow 0 grammar first symbol follow = Inl RecursionError"
| "compute_follow (Suc depth) grammar first symbol follow =
     (if symbol \<in> fst ` set follow then Inr follow
      else
        (case first_key grammar of
           None \<Rightarrow> Inl StopIteration
         | Some start_symbol \<Rightarrow>
             (case (if symbol = start_symbol
                    then sets_add (AList.update symbol [] follow) symbol dollar
                    else Inr (AList.update symbol [] follow)) of
                Inl e \<Rightarrow> Inl e
              | Inr follow1 \<Rightarrow> follow_items depth grammar first symbol grammar follow1)))"
| "follow_items depth grammar first symbol [] follow = Inr follow"
| "follow_items depth grammar first symbol ((lhs, rhs_list) # items) follow =
     (case follow_rhs_list depth grammar first symbol lhs rhs_list follow of
        Inl e \<Rightarrow> Inl e
      | Inr follow1 \<Rightarrow> follow_items depth grammar first symbol items follow1)"
| "follow_rhs_list depth grammar first symbol lhs [] follow = Inr follow"
| "follow_rhs_list depth grammar first symbol lhs (rhs # rhs_list) follow =
     (case follow_positions depth grammar first symbol lhs rhs follow of
        Inl e \<Rightarrow> Inl e
      | Inr follow1 \<Rightarrow> follow_rhs_list depth grammar first symbol lhs rhs_list follow1)"
| "follow_positions depth grammar first symbol lhs [] follow = Inr follow"
| "follow_positions depth grammar first symbol lhs (sub_symbol # rest) follow =
     (if sub_symbol = symbol then
        (case rest of
           next_symbol # rest' \<Rightarrow>
             (case follow_next grammar first symbol next_symbol follow of
                Inl e \<Rightarrow> Inl e
              | Inr (follow1, nullable) \<Rightarrow>
                  if nullable then
                    (case compute_follow depth grammar first lhs follow1 of
                       Inl e \<Rightarrow> Inl e
                     | Inr follow2 \<Rightarrow>
                         (case follow_merge follow2 symbol lhs of
                            Inl e \<Rightarrow> Inl e
                          | Inr follow3 \<Rightarrow>
                              follow_positions depth grammar first symbol lhs rest follow3))
                  else follow_positions depth grammar first symbol lhs rest follow1)
         | [] \<Rightarrow>
             if lhs \<noteq> symbol then
               (case compute_follow depth grammar first lhs follow of
                  Inl e \<Rightarrow> Inl e
                | Inr follow1 \<Rightarrow>
                    (case follow_merge follow1 symbol lhs of
                       Inl e \<Rightarrow> Inl e
                     | Inr follow2 \<Rightarrow>
                         follow_positions depth grammar first symbol lhs rest follow2))
             else follow_positions depth grammar first symbol lhs rest follow)
      else follow_positions depth grammar first symbol lhs rest follow)"
  by pat_completeness auto
termination
  by (relation "inv_image (less_than <*lex*> less_than) (\<lambda>x. case x of
        Inl (Inl (depth, g, f, s, fo)) \<Rightarrow> (depth, 0)
      | Inl (Inr (depth, g, f, s, items, fo)) \<Rightarrow>
          (depth, sum_list (map (\<lambda>(lhs, ps). sum_list (map (\<lambda>p. length p + 2) ps) + 1) items))
      | Inr (Inl (depth, g, f, s, lhs, ps, fo)) \<Rightarrow> (depth, sum_list (map (\<lambda>p. length p + 2) ps))
      | Inr (Inr (depth, g, f, s, lhs, xs, fo)) \<Rightarrow> (depth, length xs + 1))") auto

text \<open>\<^verbatim>\<open>for nt in grammar: compute_follow(nt)\<close>, from the empty \<^verbatim>\<open>follow\<close>.\<close>

fun follow_loop ::
    "nat \<Rightarrow> grammar \<Rightarrow> symbol_sets \<Rightarrow> pstr list \<Rightarrow> symbol_sets \<Rightarrow> error + symbol_sets" where
  "follow_loop limit grammar first [] follow = Inr follow"
| "follow_loop limit grammar first (nt # nts) follow =
     (case compute_follow limit grammar first nt follow of
        Inl e \<Rightarrow> Inl e
      | Inr follow1 \<Rightarrow> follow_loop limit grammar first nts follow1)"

definition follow_sets :: "nat \<Rightarrow> grammar \<Rightarrow> symbol_sets \<Rightarrow> error + symbol_sets" where
  "follow_sets limit grammar first = follow_loop limit grammar first (map fst grammar) []"

section \<open>The SLR(1) table\<close>

text \<open>
  The cells of the action table hold strings: \<^verbatim>\<open>f"S{next_state}"\<close>, \<^verbatim>\<open>'ACC'\<close> and
  \<^verbatim>\<open>f"R({lhs} \<rightarrow> {' '.join(rhs)})"\<close>. \<open>show_nat\<close> is the decimal numeral of a number.
\<close>

function show_nat :: "nat \<Rightarrow> pstr" where
  "show_nat n = (if n < 10 then [48 + int n] else show_nat (n div 10) @ [48 + int (n mod 10)])"
  by pat_completeness auto
termination
  by (relation "measure id") auto

definition shift_label :: "nat \<Rightarrow> pstr" where
  "shift_label next_state = str ''S'' @ show_nat next_state"

definition acc_label :: pstr where
  "acc_label = str ''ACC''"

definition reduce_label :: "pstr \<Rightarrow> pstr list \<Rightarrow> pstr" where
  "reduce_label lhs rhs = str ''R('' @ lhs @ [32, 8594, 32] @ join [32] rhs @ str '')''"

text \<open>
  Both tables are \<^verbatim>\<open>dict\<close>s with the keys \<^verbatim>\<open>range(len(states))\<close> in order, each holding
  the \<^verbatim>\<open>dict\<close> of one row: a list of rows, the row of state \<open>i\<close> at index \<open>i\<close>.
  \<^verbatim>\<open>table[state][symbol] = v\<close> raises \<^verbatim>\<open>KeyError\<close> when \<^verbatim>\<open>state\<close> is no key.
\<close>

type_synonym action_table = "(pstr, pstr) dict list"

type_synonym goto_table = "(pstr, nat) dict list"

definition table_set :: "('k, 'v) dict list \<Rightarrow> nat \<Rightarrow> 'k \<Rightarrow> 'v \<Rightarrow> error + ('k, 'v) dict list" where
  "table_set table state symbol v =
     (if state < length table
      then Inr (table[state := AList.update symbol v (table ! state)])
      else Inl KeyError)"

text \<open>The loop over \<^verbatim>\<open>transitions.items()\<close>.\<close>

fun table_transitions ::
    "grammar \<Rightarrow> transitions \<Rightarrow> action_table \<times> goto_table \<Rightarrow> error + action_table \<times> goto_table" where
  "table_transitions grammar [] tables = Inr tables"
| "table_transitions grammar (((state, symbol), next_state) # rest) (parsing_table, goto_table) =
     (if symbol \<in> fst ` set grammar then
        (case table_set goto_table state symbol next_state of
           Inl e \<Rightarrow> Inl e
         | Inr goto_table1 \<Rightarrow> table_transitions grammar rest (parsing_table, goto_table1))
      else
        (case table_set parsing_table state symbol (shift_label next_state) of
           Inl e \<Rightarrow> Inl e
         | Inr parsing_table1 \<Rightarrow> table_transitions grammar rest (parsing_table1, goto_table)))"

text \<open>
  The loops over the states, over the items of a state, and over the terminals of
  \<^verbatim>\<open>follow[lhs]\<close> for a complete item.
\<close>

fun table_terminals :: "nat \<Rightarrow> pstr \<Rightarrow> pstr list \<Rightarrow> action_table \<Rightarrow> error + action_table" where
  "table_terminals state label [] parsing_table = Inr parsing_table"
| "table_terminals state label (terminal # terminals) parsing_table =
     (case table_set parsing_table state terminal label of
        Inl e \<Rightarrow> Inl e
      | Inr parsing_table1 \<Rightarrow> table_terminals state label terminals parsing_table1)"

fun table_items :: "symbol_sets \<Rightarrow> nat \<Rightarrow> item list \<Rightarrow> action_table \<Rightarrow> error + action_table" where
  "table_items follow state [] parsing_table = Inr parsing_table"
| "table_items follow state ((lhs, rhs, dot_pos) # items) parsing_table =
     (if dot_pos = length rhs then
        (case (if lhs = S_prime then table_set parsing_table state dollar acc_label
               else (case dict_get follow lhs of
                       Inl e \<Rightarrow> Inl e
                     | Inr terminals \<Rightarrow>
                         table_terminals state (reduce_label lhs rhs) terminals parsing_table)) of
           Inl e \<Rightarrow> Inl e
         | Inr parsing_table1 \<Rightarrow> table_items follow state items parsing_table1)
      else table_items follow state items parsing_table)"

fun table_states ::
    "symbol_sets \<Rightarrow> nat \<Rightarrow> item list list \<Rightarrow> action_table \<Rightarrow> error + action_table" where
  "table_states follow state [] parsing_table = Inr parsing_table"
| "table_states follow state (items # rest) parsing_table =
     (case table_items follow state items parsing_table of
        Inl e \<Rightarrow> Inl e
      | Inr parsing_table1 \<Rightarrow> table_states follow (state + 1) rest parsing_table1)"

definition generate_slr1_parsing_table ::
    "item list list \<Rightarrow> transitions \<Rightarrow> grammar \<Rightarrow> symbol_sets \<Rightarrow> symbol_sets
      \<Rightarrow> error + action_table \<times> goto_table" where
  "generate_slr1_parsing_table states transitions grammar first follow =
     (let parsing_table = replicate (length states) [];
          goto_table = replicate (length states) []
      in case table_transitions grammar transitions (parsing_table, goto_table) of
           Inl e \<Rightarrow> Inl e
         | Inr (parsing_table1, goto_table1) \<Rightarrow>
             (case table_states follow 0 states parsing_table1 of
                Inl e \<Rightarrow> Inl e
              | Inr parsing_table2 \<Rightarrow> Inr (parsing_table2, goto_table1)))"

section \<open>The script\<close>

text \<open>
  The statements of the script in order, up to the tables it displays: the values of
  \<^verbatim>\<open>states\<close>, \<^verbatim>\<open>transitions\<close>, \<^verbatim>\<open>first\<close>, \<^verbatim>\<open>follow\<close>, \<^verbatim>\<open>slr1_parsing_table\<close> and
  \<^verbatim>\<open>goto_table\<close> when it gets there. \<^verbatim>\<open>if not grammar\<close> holds for \<^verbatim>\<open>None\<close> and for an empty
  \<^verbatim>\<open>dict\<close>. \<open>limit\<close> is the depth of recursion the interpreter allows.
\<close>

record script_values =
  sv_states :: "item list list"
  sv_transitions :: transitions
  sv_first :: symbol_sets
  sv_follow :: symbol_sets
  sv_parsing_table :: action_table
  sv_goto_table :: goto_table

definition run_script :: "nat \<Rightarrow> pstr \<Rightarrow> (error + script_values) option" where
  "run_script limit grammar_input =
     (case get_grammar grammar_input of
        Inl e \<Rightarrow> Some (Inl e)
      | Inr (None, messages) \<Rightarrow> Some (Inl StopScript)
      | Inr (Some grammar, messages) \<Rightarrow>
          if grammar = [] then Some (Inl StopScript)
          else
            (case augment_grammar grammar of
               Inl e \<Rightarrow> Some (Inl e)
             | Inr augmented_grammar \<Rightarrow>
                 (case generate_lr0_items augmented_grammar of
                    None \<Rightarrow> None
                  | Some (Inl e) \<Rightarrow> Some (Inl e)
                  | Some (Inr (states, transitions)) \<Rightarrow>
                      (case first_sets limit grammar of
                         Inl e \<Rightarrow> Some (Inl e)
                       | Inr first \<Rightarrow>
                           (case follow_sets limit grammar first of
                              Inl e \<Rightarrow> Some (Inl e)
                            | Inr follow \<Rightarrow>
                                (case generate_slr1_parsing_table states transitions grammar
                                        first follow of
                                   Inl e \<Rightarrow> Some (Inl e)
                                 | Inr (parsing_table, goto_table) \<Rightarrow>
                                     Some (Inr \<lparr>sv_states = states, sv_transitions = transitions,
                                       sv_first = first, sv_follow = follow,
                                       sv_parsing_table = parsing_table,
                                       sv_goto_table = goto_table\<rparr>)))))))"

section \<open>Properties of the grammar reader\<close>

text \<open>
  The left-hand side and the alternatives that \<^verbatim>\<open>get_grammar\<close> reads from a line with
  exactly one separator, and the entry of a nonterminal after a list of such lines.
\<close>

definition rule_lhs :: "pstr \<Rightarrow> pstr" where
  "rule_lhs line = strip (split_sep (str ''->'') line ! 0)"

definition rule_alternatives :: "pstr \<Rightarrow> pstr list list" where
  "rule_alternatives line = rhs_productions (split_sep (str ''->'') line ! 1)"

definition merged_rules :: "grammar \<Rightarrow> pstr list \<Rightarrow> pstr \<Rightarrow> pstr list list option" where
  "merged_rules g lines lhs =
     (case filter (\<lambda>line. rule_lhs line = lhs) lines of
        [] \<Rightarrow> map_of g lhs
      | ls \<Rightarrow> Some ((case map_of g lhs of None \<Rightarrow> [] | Some alts \<Rightarrow> alts)
                 @ concat (map rule_alternatives ls)))"

lemma split_sep_aux_nonempty: "split_sep_aux sep acc s \<noteq> []"
  by (induction sep acc s rule: split_sep_aux.induct) auto

lemma contains_split_sep_aux:
  "sep \<noteq> [] \<Longrightarrow> contains sep s \<longleftrightarrow> 2 \<le> length (split_sep_aux sep acc s)"
proof (induction sep acc s rule: split_sep_aux.induct)
  case (1 sep acc)
  then show ?case by simp
next
  case (2 sep acc c cs)
  show ?case
  proof (cases "starts_with sep (c # cs)")
    case True
    have "1 \<le> length (split_sep_aux sep [] (drop (length sep - 1) cs))"
      using split_sep_aux_nonempty [of sep "[]" "drop (length sep - 1) cs"]
      by (cases "split_sep_aux sep [] (drop (length sep - 1) cs)") auto
    then show ?thesis using True by simp
  next
    case False
    then show ?thesis using 2 by simp
  qed
qed

lemma contains_split_sep: "sep \<noteq> [] \<Longrightarrow> contains sep s \<longleftrightarrow> 2 \<le> length (split_sep sep s)"
  by (simp add: split_sep_def contains_split_sep_aux)

lemma add_rule_two_pieces:
  assumes "length (split_sep (str ''->'') line) = 2"
  shows "add_rule g line = Inr (AList.update (rule_lhs line)
      ((case map_of g (rule_lhs line) of None \<Rightarrow> [] | Some alts \<Rightarrow> alts) @ rule_alternatives line) g)"
proof -
  obtain l r where lr: "split_sep (str ''->'') line = [l, r]"
    using assms by (auto simp: length_Suc_conv numeral_2_eq_2)
  show ?thesis
    by (simp add: add_rule_def lr rule_lhs_def rule_alternatives_def Let_def split: option.splits)
qed

lemma add_rule_other_pieces:
  "length (split_sep (str ''->'') line) \<noteq> 2 \<Longrightarrow> add_rule g line = Inl ValueError"
  by (auto simp: add_rule_def split: list.splits)

text \<open>
  A line without the separator is rejected with a message when the loop gets to it,
  that is when every line before it has exactly one separator.
\<close>

lemma get_grammar_lines_rejects:
  assumes "list_all (\<lambda>line. length (split_sep (str ''->'') line) = 2) before"
    and "\<not> contains (str ''->'') line"
  shows "get_grammar_lines g (before @ line # after) = Inr (None, [invalid_rule_message line])"
  using assms
proof (induction before arbitrary: g)
  case Nil
  then show ?case by simp
next
  case (Cons l before)
  have two: "length (split_sep (str ''->'') l) = 2" using Cons.prems by simp
  have "contains (str ''->'') l"
    using two contains_split_sep [of "str ''->''" l] by (simp add: str_def)
  then show ?case
    using Cons add_rule_two_pieces [OF two, of g] by simp
qed

lemma get_grammar_lines_merges:
  assumes "list_all (\<lambda>line. length (split_sep (str ''->'') line) = 2) lines"
  shows "\<exists>g'. get_grammar_lines g lines = Inr (Some g', [])
     \<and> (\<forall>lhs. map_of g' lhs = merged_rules g lines lhs)
     \<and> map fst g' = set_update (map fst g) (map rule_lhs lines)"
  using assms
proof (induction lines arbitrary: g)
  case Nil
  then show ?case by (simp add: merged_rules_def set_update_def)
next
  case (Cons line lines)
  let ?g1 = "AList.update (rule_lhs line)
      ((case map_of g (rule_lhs line) of None \<Rightarrow> [] | Some alts \<Rightarrow> alts) @ rule_alternatives line) g"
  have two: "length (split_sep (str ''->'') line) = 2" using Cons.prems by simp
  have c: "contains (str ''->'') line"
    using two contains_split_sep [of "str ''->''" line] by (simp add: str_def)
  have step: "add_rule g line = Inr ?g1" by (rule add_rule_two_pieces [OF two])
  from Cons.IH [of ?g1] Cons.prems obtain g' where
    g': "get_grammar_lines ?g1 lines = Inr (Some g', [])"
      "\<forall>lhs. map_of g' lhs = merged_rules ?g1 lines lhs"
      "map fst g' = set_update (map fst ?g1) (map rule_lhs lines)"
    by auto
  have "get_grammar_lines g (line # lines) = Inr (Some g', [])"
    using c step g'(1) by simp
  moreover have "map_of g' lhs = merged_rules g (line # lines) lhs" for lhs
    using g'(2) by (auto simp: merged_rules_def update_conv' split: list.splits option.splits)
  moreover have "map fst g' = set_update (map fst g) (map rule_lhs (line # lines))"
    using g'(3) by (simp add: set_update_def update_keys set_add_def)
  ultimately show ?case by blast
qed

text \<open>
  Claim C9. Some input text with a line that holds the separator \<^verbatim>\<open>->\<close> twice makes
  \<^verbatim>\<open>get_grammar\<close> raise \<^verbatim>\<open>ValueError\<close>: for the text \<^verbatim>\<open>A -> b -> c\<close> the split has three
  pieces, the unpacking into two names fails, and nothing in the script catches it.
\<close>

theorem get_grammar_two_separators:
  "contains (str ''->'') (str ''A -> b -> c'')
    \<and> split_sep (str ''->'') (str ''A -> b -> c'') = [str ''A '', str '' b '', str '' c'']
    \<and> get_grammar (str ''A -> b -> c'') = Inl ValueError
    \<and> run_script limit (str ''A -> b -> c'') = Some (Inl ValueError)"
  by code_simp

text \<open>
  Claim C8 says that every text with a line lacking the separator is rejected with a
  message and the value \<^verbatim>\<open>None\<close>. In the text of the two lines \<^verbatim>\<open>A -> b -> c\<close> and
  \<^verbatim>\<open>foo\<close> the second line lacks the separator, and \<^verbatim>\<open>get_grammar\<close> raises \<^verbatim>\<open>ValueError\<close>
  at the first line instead: no message is shown and nothing is returned.
\<close>

theorem get_grammar_raises_before_rejecting:
  "\<not> contains (str ''->'') (str ''foo'')
    \<and> split_sep [10] (strip (str ''A -> b -> c'' @ [10] @ str ''foo''))
        = [str ''A -> b -> c'', str ''foo'']
    \<and> get_grammar (str ''A -> b -> c'' @ [10] @ str ''foo'') = Inl ValueError"
  by code_simp

text \<open>
  Claim C10, as the script has it. When every line of the text has exactly one
  separator, \<^verbatim>\<open>get_grammar\<close> returns a grammar and shows no message; the entry of a
  nonterminal is the concatenation, in the order of the lines, of the alternatives of all
  lines with that left-hand side, so the alternatives of a later line come after those of
  an earlier line with the same left-hand side; and the nonterminals stand in the order
  of their first lines.
\<close>

theorem get_grammar_merges_repeated_lhs:
  assumes "list_all (\<lambda>line. length (split_sep (str ''->'') line) = 2)
             (split_sep [10] (strip grammar_text))"
  shows "\<exists>grammar. get_grammar grammar_text = Inr (Some grammar, [])
     \<and> (\<forall>lhs. map_of grammar lhs =
           (case filter (\<lambda>line. rule_lhs line = lhs) (split_sep [10] (strip grammar_text)) of
              [] \<Rightarrow> None
            | ls \<Rightarrow> Some (concat (map rule_alternatives ls))))
     \<and> map fst grammar = pyset (map rule_lhs (split_sep [10] (strip grammar_text)))"
proof -
  from get_grammar_lines_merges [OF assms, of "[]"] obtain g' where
    g': "get_grammar_lines [] (split_sep [10] (strip grammar_text)) = Inr (Some g', [])"
      "\<forall>lhs. map_of g' lhs = merged_rules [] (split_sep [10] (strip grammar_text)) lhs"
      "map fst g' = set_update [] (map rule_lhs (split_sep [10] (strip grammar_text)))"
    by auto
  have "get_grammar grammar_text = Inr (Some g', [])"
    using g'(1) by (simp add: get_grammar_def)
  moreover have "map_of g' lhs =
      (case filter (\<lambda>line. rule_lhs line = lhs) (split_sep [10] (strip grammar_text)) of
         [] \<Rightarrow> None
       | ls \<Rightarrow> Some (concat (map rule_alternatives ls)))" for lhs
    using g'(2) by (simp add: merged_rules_def split: list.splits)
  moreover have "map fst g' = pyset (map rule_lhs (split_sep [10] (strip grammar_text)))"
    using g'(3) by (simp add: pyset_def)
  ultimately show ?thesis by blast
qed

theorem get_grammar_merges_repeated_lhs_witness:
  "get_grammar (str ''A -> a'' @ [10] @ str ''B -> b'' @ [10] @ str ''A -> c | d'')
     = Inr (Some [(str ''A'', [[str ''a''], [str ''c''], [str ''d'']]), (str ''B'', [[str ''b'']])], [])
   \<and> map_of [(str ''A'', [[str ''a''], [str ''c''], [str ''d'']]), (str ''B'', [[str ''b'']])] (str ''A'')
     = (case filter (\<lambda>line. rule_lhs line = str ''A'')
               (split_sep [10] (strip (str ''A -> a'' @ [10] @ str ''B -> b'' @ [10] @ str ''A -> c | d''))) of
          [] \<Rightarrow> None
        | ls \<Rightarrow> Some (concat (map rule_alternatives ls)))"
proof -
  let ?t = "str ''A -> a'' @ [10] @ str ''B -> b'' @ [10] @ str ''A -> c | d''"
  have h: "list_all (\<lambda>line. length (split_sep (str ''->'') line) = 2) (split_sep [10] (strip ?t))"
    by code_simp
  have e: "get_grammar ?t
     = Inr (Some [(str ''A'', [[str ''a''], [str ''c''], [str ''d'']]), (str ''B'', [[str ''b'']])], [])"
    by code_simp
  from get_grammar_merges_repeated_lhs [OF h] obtain grammar where
    g: "get_grammar ?t = Inr (Some grammar, [])"
      "\<forall>lhs. map_of grammar lhs =
         (case filter (\<lambda>line. rule_lhs line = lhs) (split_sep [10] (strip ?t)) of
            [] \<Rightarrow> None
          | ls \<Rightarrow> Some (concat (map rule_alternatives ls)))"
    by blast
  from g(1) e have "grammar = [(str ''A'', [[str ''a''], [str ''c''], [str ''d'']]), (str ''B'', [[str ''b'']])]"
    by simp
  with g(2) e show ?thesis by blast
qed

text \<open>
  Claim C10 as stated, for every text in which a nonterminal is the left-hand side of
  more than one line, fails when another line has no separator: in the text of the
  three lines \<^verbatim>\<open>A -> a\<close>, \<^verbatim>\<open>A -> b\<close> and \<^verbatim>\<open>foo\<close> the first two lines have the left-hand
  side \<^verbatim>\<open>A\<close>, and \<^verbatim>\<open>get_grammar\<close> shows the message for the third line and returns
  \<^verbatim>\<open>None\<close>: no grammar, and nothing merged.
\<close>

theorem get_grammar_repeated_lhs_rejected:
  "split_sep [10] (strip (str ''A -> a'' @ [10] @ str ''A -> b'' @ [10] @ str ''foo''))
      = [str ''A -> a'', str ''A -> b'', str ''foo'']
    \<and> rule_lhs (str ''A -> a'') = str ''A''
    \<and> rule_lhs (str ''A -> b'') = str ''A''
    \<and> get_grammar (str ''A -> a'' @ [10] @ str ''A -> b'' @ [10] @ str ''foo'')
      = Inr (None, [invalid_rule_message (str ''foo'')])"
  by code_simp

section \<open>Properties of augmentation\<close>

lemma update_fresh: "k \<notin> fst ` set d \<Longrightarrow> AList.update k v d = d @ [(k, v)]"
  by (induction d) auto

lemma fold_update_fresh:
  "distinct (map fst g) \<Longrightarrow> fst ` set g \<inter> fst ` set d = {}
    \<Longrightarrow> fold (\<lambda>(k, v). AList.update k v) g d = d @ g"
proof (induction g arbitrary: d)
  case Nil
  then show ?case by simp
next
  case (Cons kv g)
  obtain k v where kv: "kv = (k, v)" by (cases kv)
  have fresh: "k \<notin> fst ` set d" using Cons.prems(2) by (auto simp: kv)
  have "fold (\<lambda>(k, v). AList.update k v) g (d @ [(k, v)]) = (d @ [(k, v)]) @ g"
  proof (rule Cons.IH)
    show "distinct (map fst g)" using Cons.prems(1) by simp
    show "fst ` set g \<inter> fst ` set (d @ [(k, v)]) = {}"
      using Cons.prems by (auto simp: kv)
  qed
  then show ?case by (simp add: kv update_fresh [OF fresh])
qed

text \<open>
  Claim C5, as the script has it. The new start symbol is always the name \<^verbatim>\<open>S'\<close>. For a
  grammar whose first nonterminal is not the empty string and that has no nonterminal
  \<^verbatim>\<open>S'\<close>, the augmented grammar is the one new entry \<^verbatim>\<open>S'\<close>, with the single production
  to the first nonterminal, followed by all entries of the grammar unchanged; for the
  empty grammar the script stops with an error.
\<close>

theorem augment_grammar_new_start:
  assumes "grammar \<noteq> []" and "fst (hd grammar) \<noteq> []"
    and "S_prime \<notin> fst ` set grammar" and "distinct (map fst grammar)"
  shows "augment_grammar grammar = Inr ((S_prime, [[fst (hd grammar)]]) # grammar)
    \<and> augment_grammar [] = Inl StopScript"
proof -
  obtain k v rest where g: "grammar = (k, v) # rest"
    using assms(1) by (cases grammar) auto
  have "dict_update [(S_prime, [[k]])] grammar = [(S_prime, [[k]])] @ grammar"
    unfolding dict_update_def using assms(3,4) by (intro fold_update_fresh) auto
  then show ?thesis
    using assms(2) by (simp add: augment_grammar_def first_key_def g)
qed

theorem augment_grammar_new_start_witness:
  "augment_grammar [(str ''E'', [[str ''E'', str ''+'', str ''T''], [str ''T'']]), (str ''T'', [[str ''id'']])]
     = Inr [(S_prime, [[str ''E'']]), (str ''E'', [[str ''E'', str ''+'', str ''T''], [str ''T'']]),
            (str ''T'', [[str ''id'']])]
   \<and> augment_grammar [] = Inl StopScript"
  using augment_grammar_new_start
    [of "[(str ''E'', [[str ''E'', str ''+'', str ''T''], [str ''T'']]), (str ''T'', [[str ''id'']])]"]
  by (simp add: str_def S_prime_def)

text \<open>
  Claim C5 as stated fails for a grammar that already has the nonterminal \<^verbatim>\<open>S'\<close>: the
  update of the new \<^verbatim>\<open>dict\<close> with the grammar overwrites the entry of \<^verbatim>\<open>S'\<close>, so the
  result is the grammar itself, without a new production and with a start symbol that is
  one of the original nonterminals.
\<close>

theorem augment_grammar_name_clash:
  "S_prime \<in> fst ` set [(S_prime, [[str ''a'']])]
    \<and> augment_grammar [(S_prime, [[str ''a'']])] = Inr [(S_prime, [[str ''a'']])]"
  by code_simp

section \<open>Properties of FIRST and FOLLOW\<close>

text \<open>
  Claim C2 says that the computed FIRST sets are the least solution of the FIRST
  equations, also for mutually recursive nonterminals. For the grammar
  \<^verbatim>\<open>A -> B | a\<close>, \<^verbatim>\<open>B -> A | b\<close> the production \<^verbatim>\<open>B -> A\<close> asks for every terminal of
  FIRST(A) in FIRST(B); the script computes \<^verbatim>\<open>a\<close> into \<^verbatim>\<open>first[A]\<close> and not into
  \<^verbatim>\<open>first[B]\<close>, for every recursion limit of at least three: the call for \<^verbatim>\<open>A\<close> made
  while \<^verbatim>\<open>B\<close> is computed finds the unfinished, still empty \<^verbatim>\<open>first[A]\<close>.
\<close>

theorem compute_first_mutual_recursion:
  "get_grammar (str ''A -> B | a'' @ [10] @ str ''B -> A | b'')
      = Inr (Some [(str ''A'', [[str ''B''], [str ''a'']]), (str ''B'', [[str ''A''], [str ''b'']])], [])
    \<and> first_sets (Suc (Suc (Suc n)))
          [(str ''A'', [[str ''B''], [str ''a'']]), (str ''B'', [[str ''A''], [str ''b'']])]
      = Inr [(str ''A'', [str ''b'', str ''a'']), (str ''B'', [str ''b''])]"
  by code_simp

text \<open>
  Claim C3 says that the computed FOLLOW sets are the least solution of the FOLLOW
  equations. For the grammar \<^verbatim>\<open>S -> A B c\<close>, \<^verbatim>\<open>A -> a\<close>, \<^verbatim>\<open>B -> b |\<close> (\<^verbatim>\<open>B\<close> has an empty
  alternative) the symbols after \<^verbatim>\<open>A\<close> in the first production are \<^verbatim>\<open>B c\<close>, whose FIRST set
  is \<^verbatim>\<open>b\<close> and \<^verbatim>\<open>c\<close>, and they cannot derive the empty string. The script looks at the one
  symbol after \<^verbatim>\<open>A\<close> only: \<^verbatim>\<open>follow[A]\<close> gets \<^verbatim>\<open>b\<close> and, because \<^verbatim>\<open>B\<close> can be empty, all of
  \<^verbatim>\<open>follow[S]\<close>; it holds the end marker and lacks \<^verbatim>\<open>c\<close>.
\<close>

theorem compute_follow_one_symbol_lookahead:
  "get_grammar (str ''S -> A B c'' @ [10] @ str ''A -> a'' @ [10] @ str ''B -> b |'')
      = Inr (Some [(str ''S'', [[str ''A'', str ''B'', str ''c'']]), (str ''A'', [[str ''a'']]),
                   (str ''B'', [[str ''b''], []])], [])
    \<and> first_sets (Suc (Suc (Suc n)))
          [(str ''S'', [[str ''A'', str ''B'', str ''c'']]), (str ''A'', [[str ''a'']]),
           (str ''B'', [[str ''b''], []])]
      = Inr [(str ''S'', [str ''a'']), (str ''A'', [str ''a'']), (str ''B'', [str ''b'', epsilon])]
    \<and> follow_sets (Suc (Suc (Suc n)))
          [(str ''S'', [[str ''A'', str ''B'', str ''c'']]), (str ''A'', [[str ''a'']]),
           (str ''B'', [[str ''b''], []])]
          [(str ''S'', [str ''a'']), (str ''A'', [str ''a'']), (str ''B'', [str ''b'', epsilon])]
      = Inr [(str ''S'', [dollar]), (str ''A'', [str ''b'', dollar]), (str ''B'', [str ''c''])]"
  by code_simp

section \<open>The epsilon alternative of the sidebar example\<close>

text \<open>
  Claim C4 is about the example grammar of the sidebar, \<^verbatim>\<open>S -> A B\<close>, \<^verbatim>\<open>A -> a | \<epsilon>\<close>,
  \<^verbatim>\<open>B -> b\<close>, and asks for a reduce by the empty alternative of \<^verbatim>\<open>A\<close> on the lookahead
  \<^verbatim>\<open>b\<close> in state 0. The script computes \<^verbatim>\<open>first[A]\<close> as \<^verbatim>\<open>a\<close> and the epsilon marker, and
  \<^verbatim>\<open>b\<close> into \<^verbatim>\<open>follow[A]\<close>, but it reads the epsilon of the text as a symbol of its own: the
  item of state 0 has that symbol after the dot, the row of state 0 has a shift on that
  symbol and no entry for \<^verbatim>\<open>b\<close>, and the reduce on \<^verbatim>\<open>b\<close> stands in the state after the
  shift.
\<close>

theorem epsilon_is_read_as_a_symbol:
  "(case run_script (Suc (Suc (Suc n)))
           (str ''S -> A B'' @ [10] @ str ''A -> a | '' @ epsilon @ [10] @ str ''B -> b'') of
      Some (Inr r) \<Rightarrow>
        dict_get (sv_first r) (str ''A'') = Inr [str ''a'', epsilon]
        \<and> dict_get (sv_follow r) (str ''A'') = Inr [str ''b'']
        \<and> sv_states r ! 0 = [(S_prime, [str ''S''], 0), (str ''S'', [str ''A'', str ''B''], 0),
              (str ''A'', [str ''a''], 0), (str ''A'', [epsilon], 0)]
        \<and> map_of (sv_parsing_table r ! 0) (str ''b'') = None
        \<and> map fst (sv_parsing_table r ! 0) = [str ''a'', epsilon]
        \<and> (case map_of (sv_transitions r) (0, epsilon) of
              Some k \<Rightarrow> map_of (sv_parsing_table r ! 0) epsilon = Some (shift_label k)
                \<and> sv_states r ! k = [(str ''A'', [epsilon], 1)]
                \<and> sv_parsing_table r ! k = [(str ''b'', reduce_label (str ''A'') [epsilon])]
            | None \<Rightarrow> False)
    | _ \<Rightarrow> False)"
  by code_simp

section \<open>Properties of closure\<close>

text \<open>
  The items a closure has to hold: the least set that contains the seed and, with an
  item whose dot stands before a nonterminal, every production of that nonterminal with
  the dot at position 0. The loop of \<^verbatim>\<open>closure\<close> computes exactly this set, without
  duplicates.
\<close>

inductive_set item_closure :: "grammar \<Rightarrow> item set \<Rightarrow> item set" for g :: grammar and X :: "item set" where
  seed: "x \<in> X \<Longrightarrow> x \<in> item_closure g X"
| production: "(l, r, d) \<in> item_closure g X \<Longrightarrow> d < length r \<Longrightarrow> map_of g (r ! d) = Some prods
    \<Longrightarrow> p \<in> set prods \<Longrightarrow> (r ! d, p, 0) \<in> item_closure g X"

lemma expand_item_closure: "expand g (item_closure g X) \<subseteq> item_closure g X"
  by (auto simp: expand_def intro: item_closure.production)

lemma item_closure_least:
  assumes "X \<subseteq> Y" and "expand g Y \<subseteq> Y"
  shows "item_closure g X \<subseteq> Y"
proof
  fix x assume "x \<in> item_closure g X"
  then show "x \<in> Y"
  proof (induction rule: item_closure.induct)
    case (seed x)
    then show ?case using assms(1) by auto
  next
    case (production l r d prods p)
    then have "(r ! d, p, 0) \<in> expand g Y" by (auto simp: expand_def)
    then show ?case using assms(2) by auto
  qed
qed

lemma item_closure_mono: "X \<subseteq> Y \<Longrightarrow> item_closure g X \<subseteq> item_closure g Y"
  by (rule item_closure_least) (auto intro: item_closure.seed simp: expand_item_closure)

lemma item_closure_closed: "expand g X \<subseteq> X \<Longrightarrow> item_closure g X = X"
  using item_closure_least [of X X g] by (auto intro: item_closure.seed)

lemma item_closure_expand: "item_closure g (X \<union> expand g X) = item_closure g X"
proof
  have "expand g X \<subseteq> item_closure g X"
    using expand_mono [of X "item_closure g X" g] expand_item_closure [of g X]
    by (auto intro: item_closure.seed)
  then show "item_closure g (X \<union> expand g X) \<subseteq> item_closure g X"
    by (intro item_closure_least) (auto intro: item_closure.seed simp: expand_item_closure)
  show "item_closure g X \<subseteq> item_closure g (X \<union> expand g X)"
    by (rule item_closure_mono) auto
qed

lemma item_closure_subset: "item_closure g X \<subseteq> X \<union> grammar_items g"
proof
  fix x assume "x \<in> item_closure g X"
  then show "x \<in> X \<union> grammar_items g"
    by (induction rule: item_closure.induct) (auto simp: grammar_items_def)
qed

lemma closure_loop_unfold:
  "closure_loop g cs =
     (if expand g (set cs) \<subseteq> set cs then cs
      else closure_loop g (set_update cs (fst (closure_pass g cs))))"
proof (cases "expand g (set cs) \<subseteq> set cs")
  case True
  then have "set (fst (closure_pass g cs)) = {}" and "\<not> snd (closure_pass g cs)"
    by (auto simp: closure_pass_set)
  then show ?thesis
    using True by (cases "closure_pass g cs") (simp add: closure_loop.simps set_update_def)
next
  case False
  then have "snd (closure_pass g cs)" by (auto simp: closure_pass_set)
  then show ?thesis
    using False by (cases "closure_pass g cs") (simp add: closure_loop.simps)
qed

lemma closure_loop_props:
  "set (closure_loop g cs) = item_closure g (set cs)
   \<and> (distinct cs \<longrightarrow> distinct (closure_loop g cs))"
proof (induction g cs rule: closure_loop.induct)
  case (1 g cs)
  show ?case
  proof (cases "expand g (set cs) \<subseteq> set cs")
    case True
    then show ?thesis
      using closure_loop_unfold [of g cs] by (simp add: item_closure_closed)
  next
    case False
    let ?new = "fst (closure_pass g cs)"
    have added: "snd (closure_pass g cs)" using False by (auto simp: closure_pass_set)
    have IH: "set (closure_loop g (set_update cs ?new)) = item_closure g (set (set_update cs ?new))
       \<and> (distinct (set_update cs ?new) \<longrightarrow> distinct (closure_loop g (set_update cs ?new)))"
      by (rule "1.IH" [OF prod.collapse added])
    have "set (set_update cs ?new) = set cs \<union> expand g (set cs)"
      by (auto simp: set_set_update closure_pass_set)
    then have "item_closure g (set (set_update cs ?new)) = item_closure g (set cs)"
      by (simp add: item_closure_expand)
    then show ?thesis
      using IH False closure_loop_unfold [of g cs] by (simp add: distinct_set_update)
  qed
qed

lemma set_closure_loop: "set (closure_loop g cs) = item_closure g (set cs)"
  by (simp add: closure_loop_props)

lemma distinct_closure_loop: "distinct cs \<Longrightarrow> distinct (closure_loop g cs)"
  by (simp add: closure_loop_props)

lemma set_closure: "set (closure items g) = item_closure g (set items)"
  by (simp add: closure_def set_closure_loop set_pyset)

lemma distinct_closure: "distinct (closure items g)"
  by (simp add: closure_def distinct_closure_loop distinct_pyset)

text \<open>
  Claim C7. \<^verbatim>\<open>closure\<close> is idempotent, for every item set and every grammar: the
  closure of a closure is that closure, with the same elements (and, in this model, in
  the same order: the first pass over a closed set adds nothing).
\<close>

theorem closure_idempotent:
  "closure (closure S g) g = closure S g \<and> set (closure (closure S g) g) = set (closure S g)"
proof -
  let ?c = "closure S g"
  have "expand g (set ?c) \<subseteq> set ?c"
    by (simp add: set_closure expand_item_closure)
  then have "closure_loop g ?c = ?c"
    using closure_loop_unfold [of g ?c] by simp
  moreover have "pyset ?c = ?c" by (rule pyset_distinct) (rule distinct_closure)
  ultimately have "closure ?c g = ?c" by (simp add: closure_def)
  then show ?thesis by simp
qed

section \<open>Properties of the table builder\<close>

text \<open>
  The actions that the automaton and the FOLLOW sets assign to the cell of a state and a
  terminal, in the order in which \<^verbatim>\<open>generate_slr1_parsing_table\<close> writes them: the shifts
  of the transitions on the terminal, then the accept and reduce actions of the complete
  items of the state. Two different actions in this list are a conflict.
\<close>

definition shift_candidates :: "grammar \<Rightarrow> transitions \<Rightarrow> nat \<Rightarrow> pstr \<Rightarrow> pstr list" where
  "shift_candidates grammar transitions state terminal =
     map (\<lambda>(key, next_state). shift_label next_state)
       (filter (\<lambda>((s, symbol), next_state). s = state \<and> symbol = terminal \<and> symbol \<notin> fst ` set grammar)
          transitions)"

definition item_candidates :: "symbol_sets \<Rightarrow> pstr \<Rightarrow> item \<Rightarrow> pstr list" where
  "item_candidates follow terminal =
     (\<lambda>(lhs, rhs, dot_pos).
        if dot_pos = length rhs then
          (if lhs = S_prime then (if terminal = dollar then [acc_label] else [])
           else (case map_of follow lhs of
                   Some terminals \<Rightarrow> if terminal \<in> set terminals then [reduce_label lhs rhs] else []
                 | None \<Rightarrow> []))
        else [])"

definition cell_candidates ::
    "item list list \<Rightarrow> transitions \<Rightarrow> grammar \<Rightarrow> symbol_sets \<Rightarrow> nat \<Rightarrow> pstr \<Rightarrow> pstr list" where
  "cell_candidates states transitions grammar follow state terminal =
     shift_candidates grammar transitions state terminal
       @ concat (map (item_candidates follow terminal) (states ! state))"

text \<open>
  An example with a conflict: the grammar \<^verbatim>\<open>S -> A a\<close>, \<^verbatim>\<open>A -> | a\<close> (the first alternative
  of \<^verbatim>\<open>A\<close> is empty), with the automaton and the sets that the script computes for it.
  In state 0 the terminal \<^verbatim>\<open>a\<close> can be shifted, and \<^verbatim>\<open>a\<close> is in \<^verbatim>\<open>follow[A]\<close>, so the
  empty alternative of \<^verbatim>\<open>A\<close> can be reduced. The numbers of the states after state 0
  follow the order in which the symbols of state 0 are visited; the row of state 0 is
  the same for every order, since all shifts are written before the first reduce.
\<close>

definition conflict_text :: pstr where
  "conflict_text = str ''S -> A a'' @ [10] @ str ''A -> | a''"

definition conflict_grammar :: grammar where
  "conflict_grammar = [(str ''S'', [[str ''A'', str ''a'']]), (str ''A'', [[], [str ''a'']])]"

definition conflict_states :: "item list list" where
  "conflict_states =
     [[(S_prime, [str ''S''], 0), (str ''S'', [str ''A'', str ''a''], 0), (str ''A'', [], 0),
       (str ''A'', [str ''a''], 0)],
      [(S_prime, [str ''S''], 1)],
      [(str ''S'', [str ''A'', str ''a''], 1)],
      [(str ''A'', [str ''a''], 1)],
      [(str ''S'', [str ''A'', str ''a''], 2)]]"

definition conflict_transitions :: transitions where
  "conflict_transitions =
     [((0, str ''S''), 1), ((0, str ''A''), 2), ((0, str ''a''), 3), ((2, str ''a''), 4)]"

definition conflict_first :: symbol_sets where
  "conflict_first = [(str ''S'', [str ''a'']), (str ''A'', [epsilon, str ''a''])]"

definition conflict_follow :: symbol_sets where
  "conflict_follow = [(str ''S'', [dollar]), (str ''A'', [str ''a''])]"

definition conflict_parsing_table :: action_table where
  "conflict_parsing_table =
     [[(str ''a'', reduce_label (str ''A'') [])],
      [(dollar, acc_label)],
      [(str ''a'', shift_label 4)],
      [(str ''a'', reduce_label (str ''A'') [str ''a''])],
      [(dollar, reduce_label (str ''S'') [str ''A'', str ''a''])]]"

definition conflict_goto_table :: goto_table where
  "conflict_goto_table = [[(str ''S'', 1), (str ''A'', 2)], [], [], [], []]"

text \<open>What a sequence of writes leaves in a cell that held \<open>old\<close>.\<close>

definition last_written :: "'v option \<Rightarrow> 'v list \<Rightarrow> 'v option" where
  "last_written old vs = (if vs = [] then old else Some (last vs))"

lemma last_written_append: "last_written (last_written old xs) ys = last_written old (xs @ ys)"
  by (simp add: last_written_def)

lemma table_set_cells:
  assumes "table_set table state symbol v = Inr table1"
  shows "length table1 = length table" and "state < length table"
    and "s < length table \<Longrightarrow>
      map_of (table1 ! s) k = (if s = state \<and> k = symbol then Some v else map_of (table ! s) k)"
  using assms by (auto simp: table_set_def update_conv' nth_list_update split: if_splits)

lemma table_transitions_cells:
  assumes "table_transitions grammar transitions (pt, gt) = Inr (pt1, gt1)"
  shows "length pt1 = length pt \<and> (\<forall>s < length pt. \<forall>t. map_of (pt1 ! s) t =
      last_written (map_of (pt ! s) t) (shift_candidates grammar transitions s t))"
  using assms
proof (induction transitions arbitrary: pt gt)
  case Nil
  then show ?case by (simp add: shift_candidates_def last_written_def)
next
  case (Cons tr transitions)
  obtain state symbol next_state where tr: "tr = ((state, symbol), next_state)"
    by (cases tr) auto
  have sc: "shift_candidates grammar (tr # transitions) s t =
      (if s = state \<and> t = symbol \<and> symbol \<notin> fst ` set grammar then [shift_label next_state] else [])
        @ shift_candidates grammar transitions s t" for s t
    by (auto simp: shift_candidates_def tr)
  show ?case
  proof (cases "symbol \<in> fst ` set grammar")
    case True
    then obtain gt' where "table_transitions grammar transitions (pt, gt') = Inr (pt1, gt1)"
      using Cons.prems by (auto simp: tr split: sum.splits)
    from Cons.IH [OF this] True show ?thesis by (simp add: sc)
  next
    case False
    then obtain pt' where set: "table_set pt state symbol (shift_label next_state) = Inr pt'"
      and rest: "table_transitions grammar transitions (pt', gt) = Inr (pt1, gt1)"
      using Cons.prems by (auto simp: tr split: sum.splits)
    note IH = Cons.IH [OF rest]
    have len: "length pt' = length pt" using table_set_cells(1) [OF set] .
    have "map_of (pt1 ! s) t =
        last_written (map_of (pt ! s) t) (shift_candidates grammar (tr # transitions) s t)"
      if s: "s < length pt" for s t
    proof -
      have "map_of (pt1 ! s) t =
          last_written (map_of (pt' ! s) t) (shift_candidates grammar transitions s t)"
        using IH s len by simp
      also have "map_of (pt' ! s) t = last_written (map_of (pt ! s) t)
          (if s = state \<and> t = symbol \<and> symbol \<notin> fst ` set grammar then [shift_label next_state] else [])"
        using table_set_cells(3) [OF set s, of t] False
        by (auto simp: last_written_def)
      finally show ?thesis by (simp add: sc last_written_append)
    qed
    then show ?thesis using IH len by simp
  qed
qed

lemma table_terminals_cells:
  assumes "table_terminals state label terminals pt = Inr pt1"
  shows "length pt1 = length pt \<and> (\<forall>s < length pt. \<forall>t. map_of (pt1 ! s) t =
      (if s = state \<and> t \<in> set terminals then Some label else map_of (pt ! s) t))"
  using assms
proof (induction terminals arbitrary: pt)
  case Nil
  then show ?case by simp
next
  case (Cons terminal terminals)
  then obtain pt' where set: "table_set pt state terminal label = Inr pt'"
    and rest: "table_terminals state label terminals pt' = Inr pt1"
    by (auto split: sum.splits)
  note IH = Cons.IH [OF rest]
  have len: "length pt' = length pt" using table_set_cells(1) [OF set] .
  show ?case
    using IH len table_set_cells(3) [OF set] by auto
qed

lemma table_items_cells:
  assumes "table_items follow state items pt = Inr pt1"
  shows "length pt1 = length pt \<and> (\<forall>s < length pt. \<forall>t. map_of (pt1 ! s) t =
      (if s = state
       then last_written (map_of (pt ! s) t) (concat (map (item_candidates follow t) items))
       else map_of (pt ! s) t))"
  using assms
proof (induction items arbitrary: pt)
  case Nil
  then show ?case by (simp add: last_written_def)
next
  case (Cons it items)
  obtain lhs rhs dot_pos where it: "it = (lhs, rhs, dot_pos)" by (cases it) auto
  show ?case
  proof (cases "dot_pos = length rhs")
    case False
    then have "table_items follow state items pt = Inr pt1"
      using Cons.prems by (simp add: it)
    from Cons.IH [OF this] False show ?thesis
      by (simp add: it item_candidates_def)
  next
    case True
    then obtain pt' where
      w: "(if lhs = S_prime then table_set pt state dollar acc_label
           else (case dict_get follow lhs of
                   Inl e \<Rightarrow> Inl e
                 | Inr terminals \<Rightarrow> table_terminals state (reduce_label lhs rhs) terminals pt))
          = Inr pt'"
      and rest: "table_items follow state items pt' = Inr pt1"
      using Cons.prems by (auto simp: it split: sum.splits)
    note IH = Cons.IH [OF rest]
    have step: "length pt' = length pt \<and> (\<forall>s < length pt. \<forall>t. map_of (pt' ! s) t =
        (if s = state then last_written (map_of (pt ! s) t) (item_candidates follow t it)
         else map_of (pt ! s) t))"
    proof (cases "lhs = S_prime")
      case True
      then have set: "table_set pt state dollar acc_label = Inr pt'" using w by simp
      show ?thesis
        using table_set_cells(1) [OF set] table_set_cells(3) [OF set] True \<open>dot_pos = length rhs\<close>
        by (auto simp: it item_candidates_def last_written_def)
    next
      case False
      then obtain terminals where f: "map_of follow lhs = Some terminals"
        and tt: "table_terminals state (reduce_label lhs rhs) terminals pt = Inr pt'"
        using w by (auto simp: dict_get_def split: option.splits sum.splits)
      show ?thesis
        using table_terminals_cells [OF tt] False f \<open>dot_pos = length rhs\<close>
        by (auto simp: it item_candidates_def last_written_def)
    qed
    have "map_of (pt1 ! s) t =
        (if s = state
         then last_written (map_of (pt ! s) t) (concat (map (item_candidates follow t) (it # items)))
         else map_of (pt ! s) t)" if s: "s < length pt" for s t
      using IH step s by (simp add: last_written_append)
    then show ?thesis using IH step by simp
  qed
qed

lemma table_states_cells:
  assumes "table_states follow i states pt = Inr pt1"
  shows "length pt1 = length pt \<and> (\<forall>s < length pt. \<forall>t. map_of (pt1 ! s) t =
      (if i \<le> s \<and> s < i + length states
       then last_written (map_of (pt ! s) t) (concat (map (item_candidates follow t) (states ! (s - i))))
       else map_of (pt ! s) t))"
  using assms
proof (induction states arbitrary: i pt)
  case Nil
  then show ?case by auto
next
  case (Cons items states)
  then obtain pt' where items: "table_items follow i items pt = Inr pt'"
    and rest: "table_states follow (i + 1) states pt' = Inr pt1"
    by (auto split: sum.splits)
  note IH = Cons.IH [OF rest]
  note step = table_items_cells [OF items]
  have "map_of (pt1 ! s) t =
      (if i \<le> s \<and> s < i + length (items # states)
       then last_written (map_of (pt ! s) t)
              (concat (map (item_candidates follow t) ((items # states) ! (s - i))))
       else map_of (pt ! s) t)" if s: "s < length pt" for s t
  proof (cases "s = i")
    case True
    then show ?thesis using IH step s by simp
  next
    case False
    have "(items # states) ! (s - i) = states ! (s - (i + 1))" if "i \<le> s"
    proof -
      from that False obtain m where m: "s - i = Suc m" by (cases "s - i") auto
      then have "s - (i + 1) = m" by arith
      with m show ?thesis by simp
    qed
    then show ?thesis using IH step s False by auto
  qed
  then show ?case using IH step by simp
qed

text \<open>
  Claim C1, as the script has it. \<^verbatim>\<open>generate_slr1_parsing_table\<close> returns the action
  table and the goto table and nothing else, and every cell of the action table holds
  the action written to it last: the shifts are written first, then the accept and
  reduce actions state by state, so a reduce or accept replaces a shift of the same
  cell, and of several reduces the one of the item visited last stays.
\<close>

theorem slr1_table_last_action_wins:
  assumes "generate_slr1_parsing_table states transitions grammar first follow
             = Inr (parsing_table, goto_table)"
    and "state < length states"
  shows "length parsing_table = length states
    \<and> map_of (parsing_table ! state) terminal =
        (if cell_candidates states transitions grammar follow state terminal = [] then None
         else Some (last (cell_candidates states transitions grammar follow state terminal)))"
proof -
  let ?n = "length states"
  from assms(1) obtain pt1 gt1 where
    tr: "table_transitions grammar transitions (replicate ?n [], replicate ?n []) = Inr (pt1, gt1)"
    and st: "table_states follow 0 states pt1 = Inr parsing_table"
    by (auto simp: generate_slr1_parsing_table_def Let_def split: sum.splits prod.splits)
  note a = table_transitions_cells [OF tr]
  note b = table_states_cells [OF st]
  have len: "length pt1 = ?n" using a by simp
  have "map_of (parsing_table ! state) terminal =
      last_written (map_of (pt1 ! state) terminal)
        (concat (map (item_candidates follow terminal) (states ! state)))"
    using b assms(2) len by simp
  also have "map_of (pt1 ! state) terminal =
      last_written None (shift_candidates grammar transitions state terminal)"
    using a assms(2) by simp
  finally have "map_of (parsing_table ! state) terminal =
      last_written None (cell_candidates states transitions grammar follow state terminal)"
    by (simp add: last_written_append cell_candidates_def)
  then show ?thesis using b len by (simp add: last_written_def)
qed

theorem slr1_table_last_action_wins_witness:
  "generate_slr1_parsing_table conflict_states conflict_transitions conflict_grammar
       conflict_first conflict_follow
     = Inr (conflict_parsing_table, conflict_goto_table)
   \<and> length conflict_parsing_table = length conflict_states
   \<and> cell_candidates conflict_states conflict_transitions conflict_grammar conflict_follow
         0 (str ''a'')
     = [shift_label 3, reduce_label (str ''A'') []]
   \<and> map_of (conflict_parsing_table ! 0) (str ''a'') = Some (reduce_label (str ''A'') [])"
proof -
  have run: "generate_slr1_parsing_table conflict_states conflict_transitions conflict_grammar
       conflict_first conflict_follow
     = Inr (conflict_parsing_table, conflict_goto_table)"
    by code_simp
  have state: "0 < length conflict_states"
    by (simp add: conflict_states_def)
  have candidates: "cell_candidates conflict_states conflict_transitions conflict_grammar
      conflict_follow 0 (str ''a'') = [shift_label 3, reduce_label (str ''A'') []]"
    by code_simp
  from slr1_table_last_action_wins [OF run state, of "str ''a''"] run candidates
  show ?thesis by simp
qed

text \<open>
  Claim C1 as stated fails on the example: the script computes the automaton and the
  sets above, the cell of state 0 and \<^verbatim>\<open>a\<close> has two different actions, the shift and
  the reduce of the empty alternative, and the builder returns the two tables only, with
  the reduce in that cell; the shift is gone and no conflict is reported.
\<close>

theorem slr1_conflict_not_reported:
  "run_script 1000 conflict_text =
     Some (Inr \<lparr>sv_states = conflict_states, sv_transitions = conflict_transitions,
       sv_first = conflict_first, sv_follow = conflict_follow,
       sv_parsing_table = conflict_parsing_table, sv_goto_table = conflict_goto_table\<rparr>)
   \<and> get_grammar conflict_text = Inr (Some conflict_grammar, [])
   \<and> cell_candidates conflict_states conflict_transitions conflict_grammar conflict_follow
         0 (str ''a'')
     = [shift_label 3, reduce_label (str ''A'') []]
   \<and> shift_label 3 \<noteq> reduce_label (str ''A'') []
   \<and> generate_slr1_parsing_table conflict_states conflict_transitions conflict_grammar
         conflict_first conflict_follow
     = Inr (conflict_parsing_table, conflict_goto_table)
   \<and> conflict_parsing_table ! 0 = [(str ''a'', reduce_label (str ''A'') [])]"
  by code_simp

section \<open>Properties of the automaton\<close>

text \<open>
  What the automaton has to be, said on sets of items and without the functions of the
  script: \<open>symbols_of\<close> are the symbols that stand right after a dot in a set;
  \<open>advance\<close> collects, for the items of a set with a given symbol right after the dot,
  the items with the dot moved over it; \<open>goto_set\<close> is the closure of that collection
  (empty when the collection is empty), with the closure \<open>item_closure\<close> from above.
  \<open>all_items\<close> are the finitely many items that any state of a grammar can hold.
\<close>

definition symbols_of :: "item set \<Rightarrow> pstr set" where
  "symbols_of X = {r ! d | l r d. (l, r, d) \<in> X \<and> d < length r}"

definition advance :: "pstr \<Rightarrow> item set \<Rightarrow> item set" where
  "advance sy X = {(l, r, Suc d) | l r d. (l, r, d) \<in> X \<and> d < length r \<and> r ! d = sy}"

definition goto_set :: "grammar \<Rightarrow> item set \<Rightarrow> pstr \<Rightarrow> item set" where
  "goto_set g X sy = item_closure g (advance sy X)"

definition all_items :: "grammar \<Rightarrow> item set" where
  "all_items g = {(l, r, d) | l r d prods. map_of g l = Some prods \<and> r \<in> set prods \<and> d \<le> length r}"

lemma set_symbols_after_dot: "set (symbols_after_dot state) = symbols_of (set state)"
  by (force simp: symbols_after_dot_def set_pyset symbols_of_def)

lemma set_fold_goto_item:
  "set (fold (goto_item sy) items acc) = set acc \<union> advance sy (set items)"
proof (induction items arbitrary: acc)
  case Nil
  then show ?case by (simp add: advance_def)
next
  case (Cons it items)
  obtain l r d where it: "it = (l, r, d)" by (cases it) auto
  have "advance sy (set (it # items)) = advance sy {it} \<union> advance sy (set items)"
    by (auto simp: advance_def)
  moreover have "set (goto_item sy it acc) = set acc \<union> advance sy {it}"
    by (auto simp: it goto_item_def advance_def set_set_add)
  ultimately show ?case by (auto simp: Cons.IH)
qed

lemma item_closure_empty: "item_closure g {} = {}"
  using item_closure_closed [of g "{}"] by (simp add: expand_empty)

lemma set_goto: "set (goto items sy g) = goto_set g (set items) sy"
proof (cases "fold (goto_item sy) items [] = []")
  case True
  then have "advance sy (set items) = {}"
    using set_fold_goto_item [of sy items "[]"] by simp
  then show ?thesis using True by (simp add: goto_def goto_set_def item_closure_empty)
next
  case False
  then show ?thesis
    using set_fold_goto_item [of sy items "[]"] by (simp add: goto_def goto_set_def set_closure)
qed

lemma finite_all_items: "finite (all_items g)"
proof -
  have "all_items g \<subseteq> (\<Union>(l, prods) \<in> set g. \<Union>r \<in> set prods. (\<lambda>d. (l, r, d)) ` {..length r})"
    by (auto simp: all_items_def dest!: map_of_SomeD)
  moreover have "finite (\<Union>(l, prods) \<in> set g. \<Union>r \<in> set prods. (\<lambda>d. (l, r, d)) ` {..length r})"
    by auto
  ultimately show ?thesis by (rule finite_subset)
qed

lemma grammar_items_all_items: "grammar_items g \<subseteq> all_items g"
  by (auto simp: grammar_items_def all_items_def)

lemma item_closure_all_items: "X \<subseteq> all_items g \<Longrightarrow> item_closure g X \<subseteq> all_items g"
  using item_closure_subset [of g X] grammar_items_all_items [of g] by auto

lemma advance_all_items: "X \<subseteq> all_items g \<Longrightarrow> advance sy X \<subseteq> all_items g"
  by (fastforce simp: advance_def all_items_def)

lemma goto_set_all_items: "X \<subseteq> all_items g \<Longrightarrow> goto_set g X sy \<subseteq> all_items g"
  by (simp add: goto_set_def item_closure_all_items advance_all_items)

lemma frozenset_eq_iff: "frozenset_eq a b \<longleftrightarrow> set a = set b"
  by (auto simp: frozenset_eq_def list_all_iff)

lemma fs_lookup_Some: "fs_lookup d key = Some v \<Longrightarrow> \<exists>k. (k, v) \<in> set d \<and> set k = set key"
  by (induction d key rule: fs_lookup.induct) (auto simp: frozenset_eq_iff split: if_splits)

lemma fs_lookup_None: "fs_lookup d key = None \<longleftrightarrow> (\<forall>(k, v) \<in> set d. set k \<noteq> set key)"
  by (induction d key rule: fs_lookup.induct) (auto simp: frozenset_eq_iff)

lemma fs_update_fresh: "fs_lookup d key = None \<Longrightarrow> fs_update key v d = d @ [(key, v)]"
  by (induction key v d rule: fs_update.induct) (auto split: if_splits)

lemma in_set_indexed:
  "(k, v) \<in> set (zip xs [0..<length xs]) \<longleftrightarrow> v < length xs \<and> xs ! v = k"
  by (auto simp: set_zip)

text \<open>
  The item sets that the construction has to enumerate: the initial set and, with a set,
  its \<open>goto_set\<close> on every symbol right after one of its dots.
\<close>

inductive_set reachable_sets :: "grammar \<Rightarrow> item set \<Rightarrow> item set set"
  for g :: grammar and X0 :: "item set" where
  initial: "X0 \<in> reachable_sets g X0"
| successor: "X \<in> reachable_sets g X0 \<Longrightarrow> sy \<in> symbols_of X
    \<Longrightarrow> goto_set g X sy \<in> reachable_sets g X0"

text \<open>
  The invariant of the worklist loop: \<^verbatim>\<open>state_indices\<close> numbers the states in order, no
  two states have the same items, every state is reachable and holds items of the grammar
  only, the queue holds enumerated states, and every recorded transition leads from a
  state to the state with the items of its \<^verbatim>\<open>goto\<close>.
\<close>

definition lr0_inv :: "grammar \<Rightarrow> item list \<Rightarrow> lr0 \<Rightarrow> bool" where
  "lr0_inv g s0 = (\<lambda>(states, state_indices, transitions, queue).
     state_indices = zip states [0..<length states]
     \<and> states \<noteq> [] \<and> states ! 0 = s0
     \<and> (\<forall>i < length states. \<forall>j < length states. set (states ! i) = set (states ! j) \<longrightarrow> i = j)
     \<and> (\<forall>s \<in> set states. set s \<subseteq> all_items g \<and> set s \<in> reachable_sets g (set s0))
     \<and> set queue \<subseteq> set states
     \<and> distinct (map fst transitions)
     \<and> (\<forall>i sy j. ((i, sy), j) \<in> set transitions \<longrightarrow>
           i < length states \<and> j < length states \<and> sy \<in> symbols_of (set (states ! i))
           \<and> set (states ! j) = goto_set g (set (states ! i)) sy))"

lemma set_update_subset: "set (AList.update k v al) \<subseteq> insert (k, v) (set al)"
  by (induction al) auto

lemma lr0_symbol_inv:
  assumes inv: "lr0_inv g s0 (states, si, ts, queue)"
    and i: "i < length states" and sy: "sy \<in> set (symbols_after_dot (states ! i))"
  shows "\<exists>ext ts'. lr0_symbol g (states ! i) i sy (states, si, ts, queue)
        = (states @ ext, zip (states @ ext) [0..<length (states @ ext)], ts', queue @ ext)
      \<and> lr0_inv g s0 (states @ ext, zip (states @ ext) [0..<length (states @ ext)], ts', queue @ ext)
      \<and> fst ` set ts' = insert (i, sy) (fst ` set ts)"
proof -
  let ?n = "length states"
  let ?new = "goto (states ! i) sy g"
  have si: "si = zip states [0..<?n]" using inv by (simp add: lr0_inv_def)
  have new_set: "set ?new = goto_set g (set (states ! i)) sy" by (rule set_goto)
  have sy': "sy \<in> symbols_of (set (states ! i))" using sy by (simp add: set_symbols_after_dot)
  have sti: "states ! i \<in> set states" using i by simp
  have new_items: "set ?new \<subseteq> all_items g"
    using inv sti by (auto simp: lr0_inv_def new_set intro!: goto_set_all_items)
  have new_reach: "set ?new \<in> reachable_sets g (set s0)"
    unfolding new_set using inv sti sy' by (auto simp: lr0_inv_def intro: reachable_sets.successor)
  show ?thesis
  proof (cases "fs_lookup si ?new")
    case None
    have fresh: "\<forall>k < ?n. set (states ! k) \<noteq> set ?new"
    proof (intro allI impI)
      fix k assume "k < ?n"
      then have "(states ! k, k) \<in> set si" by (simp add: si in_set_indexed)
      with None show "set (states ! k) \<noteq> set ?new" by (auto simp: fs_lookup_None)
    qed
    let ?ts = "AList.update (i, sy) ?n ts"
    have eq: "lr0_symbol g (states ! i) i sy (states, si, ts, queue)
        = (states @ [?new], zip (states @ [?new]) [0..<length (states @ [?new])], ?ts,
           queue @ [?new])"
      using None by (simp add: lr0_symbol_def Let_def fs_update_fresh si)
    have nth: "(states @ [?new]) ! k = (if k < ?n then states ! k else ?new)" if "k \<le> ?n" for k
      using that by (auto simp: nth_append)
    have inj: "\<forall>a < length (states @ [?new]). \<forall>b < length (states @ [?new]).
        set ((states @ [?new]) ! a) = set ((states @ [?new]) ! b) \<longrightarrow> a = b"
      using inv fresh by (auto simp: lr0_inv_def nth_append less_Suc_eq)
    have tr: "\<forall>a s b. ((a, s), b) \<in> set ?ts \<longrightarrow>
        a < length (states @ [?new]) \<and> b < length (states @ [?new])
        \<and> s \<in> symbols_of (set ((states @ [?new]) ! a))
        \<and> set ((states @ [?new]) ! b) = goto_set g (set ((states @ [?new]) ! a)) s"
    proof (intro allI impI)
      fix a s b assume "((a, s), b) \<in> set ?ts"
      then consider "a = i" "s = sy" "b = ?n" | "((a, s), b) \<in> set ts"
        using set_update_subset [of "(i, sy)" ?n ts] by auto
      then show "a < length (states @ [?new]) \<and> b < length (states @ [?new])
        \<and> s \<in> symbols_of (set ((states @ [?new]) ! a))
        \<and> set ((states @ [?new]) ! b) = goto_set g (set ((states @ [?new]) ! a)) s"
      proof cases
        case 1
        then show ?thesis using i sy' new_set by (simp add: nth_append)
      next
        case 2
        then have "a < ?n \<and> b < ?n \<and> s \<in> symbols_of (set (states ! a))
            \<and> set (states ! b) = goto_set g (set (states ! a)) s"
          using inv by (auto simp: lr0_inv_def)
        then show ?thesis by (simp add: nth_append)
      qed
    qed
    have inv': "lr0_inv g s0 (states @ [?new], zip (states @ [?new]) [0..<length (states @ [?new])],
        ?ts, queue @ [?new])"
      unfolding lr0_inv_def prod.case
    proof (intro conjI)
      show "states @ [?new] \<noteq> []" by simp
      show "(states @ [?new]) ! 0 = s0" using inv by (auto simp: lr0_inv_def nth_append)
      show "\<forall>s \<in> set (states @ [?new]). set s \<subseteq> all_items g \<and> set s \<in> reachable_sets g (set s0)"
        using inv new_items new_reach by (auto simp: lr0_inv_def)
      show "set (queue @ [?new]) \<subseteq> set (states @ [?new])"
        using inv by (auto simp: lr0_inv_def)
      show "distinct (map fst ?ts)"
        using inv by (auto simp: lr0_inv_def intro: distinct_update)
    qed (use inj tr in simp_all)
    have "fst ` set ?ts = insert (i, sy) (fst ` set ts)"
      using dom_update [of "(i, sy)" ?n ts] by (simp add: dom_map_of_conv_image_fst)
    with eq inv' show ?thesis by (intro exI [of _ "[?new]"] exI [of _ ?ts]) simp
  next
    case (Some j)
    then have j: "j < ?n" "set (states ! j) = set ?new"
      using fs_lookup_Some [OF Some] by (auto simp: si in_set_indexed)
    let ?ts = "AList.update (i, sy) j ts"
    have eq: "lr0_symbol g (states ! i) i sy (states, si, ts, queue)
        = (states, si, ?ts, queue)"
      using Some by (simp add: lr0_symbol_def Let_def)
    have tr: "\<forall>a s b. ((a, s), b) \<in> set ?ts \<longrightarrow>
        a < ?n \<and> b < ?n \<and> s \<in> symbols_of (set (states ! a))
        \<and> set (states ! b) = goto_set g (set (states ! a)) s"
    proof (intro allI impI)
      fix a s b assume "((a, s), b) \<in> set ?ts"
      then consider "a = i" "s = sy" "b = j" | "((a, s), b) \<in> set ts"
        using set_update_subset [of "(i, sy)" j ts] by auto
      then show "a < ?n \<and> b < ?n \<and> s \<in> symbols_of (set (states ! a))
        \<and> set (states ! b) = goto_set g (set (states ! a)) s"
      proof cases
        case 1
        then show ?thesis using i j sy' new_set by simp
      next
        case 2
        then show ?thesis using inv by (auto simp: lr0_inv_def)
      qed
    qed
    have inv': "lr0_inv g s0 (states, si, ?ts, queue)"
      using inv tr by (auto simp: lr0_inv_def intro: distinct_update)
    have "fst ` set ?ts = insert (i, sy) (fst ` set ts)"
      using dom_update [of "(i, sy)" j ts] by (simp add: dom_map_of_conv_image_fst)
    with eq inv' si show ?thesis by (intro exI [of _ "[]"] exI [of _ ?ts]) simp
  qed
qed


lemma lr0_symbols_inv:
  assumes "lr0_inv g s0 (states, si, ts, queue)"
    and "i < length states" and "st = states ! i"
    and "set sys \<subseteq> set (symbols_after_dot st)"
  shows "\<exists>ext ts'. fold (lr0_symbol g st i) sys (states, si, ts, queue)
        = (states @ ext, zip (states @ ext) [0..<length (states @ ext)], ts', queue @ ext)
      \<and> lr0_inv g s0 (states @ ext, zip (states @ ext) [0..<length (states @ ext)], ts', queue @ ext)
      \<and> fst ` set ts' = fst ` set ts \<union> {i} \<times> set sys"
  using assms
proof (induction sys arbitrary: states si ts queue)
  case Nil
  then have "si = zip states [0..<length states]" by (simp add: lr0_inv_def)
  with Nil show ?case by (intro exI [of _ "[]"] exI [of _ ts]) simp
next
  case (Cons sy sys)
  have sy: "sy \<in> set (symbols_after_dot (states ! i))" using Cons.prems by simp
  from lr0_symbol_inv [OF Cons.prems(1,2) sy] obtain ext1 ts1 where
    step: "lr0_symbol g (states ! i) i sy (states, si, ts, queue)
        = (states @ ext1, zip (states @ ext1) [0..<length (states @ ext1)], ts1, queue @ ext1)"
    and inv1: "lr0_inv g s0 (states @ ext1, zip (states @ ext1) [0..<length (states @ ext1)], ts1,
        queue @ ext1)"
    and dom1: "fst ` set ts1 = insert (i, sy) (fst ` set ts)"
    by blast
  have i1: "i < length (states @ ext1)" using Cons.prems(2) by simp
  have st1: "st = (states @ ext1) ! i" using Cons.prems(2,3) by (simp add: nth_append)
  have sys: "set sys \<subseteq> set (symbols_after_dot st)" using Cons.prems(4) by simp
  from Cons.IH [OF inv1 i1 st1 sys] obtain ext2 ts2 where
    rest: "fold (lr0_symbol g st i) sys
          (states @ ext1, zip (states @ ext1) [0..<length (states @ ext1)], ts1, queue @ ext1)
        = ((states @ ext1) @ ext2, zip ((states @ ext1) @ ext2) [0..<length ((states @ ext1) @ ext2)],
           ts2, (queue @ ext1) @ ext2)"
    and inv2: "lr0_inv g s0 ((states @ ext1) @ ext2,
        zip ((states @ ext1) @ ext2) [0..<length ((states @ ext1) @ ext2)], ts2, (queue @ ext1) @ ext2)"
    and dom2: "fst ` set ts2 = fst ` set ts1 \<union> {i} \<times> set sys"
    by blast
  have "fold (lr0_symbol g st i) (sy # sys) (states, si, ts, queue)
      = (states @ (ext1 @ ext2), zip (states @ (ext1 @ ext2)) [0..<length (states @ (ext1 @ ext2))],
         ts2, queue @ (ext1 @ ext2))"
    using step rest Cons.prems(3) by simp
  moreover have "lr0_inv g s0 (states @ (ext1 @ ext2),
      zip (states @ (ext1 @ ext2)) [0..<length (states @ (ext1 @ ext2))], ts2, queue @ (ext1 @ ext2))"
    using inv2 by simp
  moreover have "fst ` set ts2 = fst ` set ts \<union> {i} \<times> set (sy # sys)"
    using dom1 dom2 by auto
  ultimately show ?case by blast
qed

text \<open>
  A state that has left the queue has a transition for every symbol after one of its
  dots. The number of states is bounded, since different states are different sets of
  items of the grammar; with the length of the queue this gives the measure for the
  termination of the loop.
\<close>

definition lr0_done :: "item list list \<Rightarrow> transitions \<Rightarrow> item list list \<Rightarrow> bool" where
  "lr0_done states transitions queue =
     (\<forall>i < length states. states ! i \<in> set queue
        \<or> (\<forall>sy \<in> symbols_of (set (states ! i)). (i, sy) \<in> fst ` set transitions))"

lemma lr0_inv_bound:
  assumes "lr0_inv g s0 (states, si, ts, queue)"
  shows "length states \<le> 2 ^ card (all_items g)"
proof -
  let ?f = "\<lambda>i. set (states ! i)"
  have inj: "inj_on ?f {..<length states}"
    using assms by (auto simp: lr0_inv_def inj_on_def)
  have "?f ` {..<length states} \<subseteq> Pow (all_items g)"
    using assms by (auto simp: lr0_inv_def)
  then have "card (?f ` {..<length states}) \<le> card (Pow (all_items g))"
    by (intro card_mono) (auto simp: finite_all_items)
  then show ?thesis
    using inj by (simp add: card_image card_Pow finite_all_items)
qed

lemma lr0_loop_correct:
  assumes "lr0_inv g s0 (states, si, ts, queue)" and "lr0_done states ts queue"
  shows "\<exists>states' ts'. lr0_loop g states si ts queue
        = Some (Inr (states', zip states' [0..<length states'], ts', []))
      \<and> lr0_inv g s0 (states', zip states' [0..<length states'], ts', [])
      \<and> lr0_done states' ts' []"
  using assms
proof (induction "2 * (2 ^ card (all_items g) - length states) + length queue"
    arbitrary: states si ts queue rule: less_induct)
  case less
  have si: "si = zip states [0..<length states]" using less.prems(1) by (simp add: lr0_inv_def)
  show ?case
  proof (cases queue)
    case Nil
    have "lr0_loop g states si ts queue = Some (Inr (states, si, ts, []))"
      by (simp add: lr0_loop.simps Nil)
    then show ?thesis using less.prems si Nil by auto
  next
    case (Cons state queue')
    let ?n = "length states"
    have "state \<in> set states" using less.prems(1) Cons by (auto simp: lr0_inv_def)
    then obtain i where i: "i < ?n" "states ! i = state" by (auto simp: in_set_conv_nth)
    have distinct_sets: "\<And>a b. a < ?n \<Longrightarrow> b < ?n \<Longrightarrow> set (states ! a) = set (states ! b) \<Longrightarrow> a = b"
      using less.prems(1) by (auto simp: lr0_inv_def)
    have lookup: "fs_lookup si state = Some i"
    proof (cases "fs_lookup si state")
      case None
      moreover have "(state, i) \<in> set si" using i by (simp add: si in_set_indexed)
      ultimately show ?thesis by (auto simp: fs_lookup_None)
    next
      case (Some j)
      from fs_lookup_Some [OF Some] have "j < ?n" "set (states ! j) = set state"
        by (auto simp: si in_set_indexed)
      then have "j = i" using i distinct_sets by auto
      then show ?thesis using Some by simp
    qed
    have inv0: "lr0_inv g s0 (states, si, ts, queue')"
      using less.prems(1) Cons by (auto simp: lr0_inv_def)
    from lr0_symbols_inv [OF inv0 i(1) i(2) [symmetric] subset_refl] obtain ext ts1 where
      fold: "fold (lr0_symbol g state i) (symbols_after_dot state) (states, si, ts, queue')
          = (states @ ext, zip (states @ ext) [0..<length (states @ ext)], ts1, queue' @ ext)"
      and inv1: "lr0_inv g s0 (states @ ext, zip (states @ ext) [0..<length (states @ ext)], ts1,
          queue' @ ext)"
      and dom1: "fst ` set ts1 = fst ` set ts \<union> {i} \<times> set (symbols_after_dot state)"
      by blast
    have done1: "lr0_done (states @ ext) ts1 (queue' @ ext)"
      unfolding lr0_done_def
    proof (intro allI impI)
      fix k assume k: "k < length (states @ ext)"
      show "(states @ ext) ! k \<in> set (queue' @ ext)
          \<or> (\<forall>sy \<in> symbols_of (set ((states @ ext) ! k)). (k, sy) \<in> fst ` set ts1)"
      proof (cases "k < ?n")
        case False
        then have "(states @ ext) ! k \<in> set ext" using k by (auto simp: nth_append)
        then show ?thesis by simp
      next
        case True
        then have nth: "(states @ ext) ! k = states ! k" by (simp add: nth_append)
        consider "k = i" | "k \<noteq> i" "states ! k \<in> set queue'"
          | "\<forall>sy \<in> symbols_of (set (states ! k)). (k, sy) \<in> fst ` set ts"
        proof -
          have "states ! k \<in> set queue
              \<or> (\<forall>sy \<in> symbols_of (set (states ! k)). (k, sy) \<in> fst ` set ts)"
            using less.prems(2) True by (simp add: lr0_done_def)
          moreover have "k = i" if "states ! k = state"
            using that i True distinct_sets by auto
          ultimately show ?thesis using that Cons by auto
        qed
        then show ?thesis
        proof cases
          case 1
          have "(states @ ext) ! k = state" using 1 nth i by simp
          moreover have "{i} \<times> symbols_of (set state) \<subseteq> fst ` set ts1"
            using dom1 by (simp add: set_symbols_after_dot)
          ultimately show ?thesis using 1 by auto
        next
          case 2
          then show ?thesis by (simp add: nth)
        next
          case 3
          then show ?thesis using dom1 by (auto simp: nth)
        qed
      qed
    qed
    have bound: "length (states @ ext) \<le> 2 ^ card (all_items g)"
      by (rule lr0_inv_bound [OF inv1])
    have smaller: "2 * (2 ^ card (all_items g) - length (states @ ext)) + length (queue' @ ext)
        < 2 * (2 ^ card (all_items g) - length states) + length queue"
      using bound Cons by simp
    from less.hyps [OF smaller inv1 done1] obtain states' ts' where
      res: "lr0_loop g (states @ ext) (zip (states @ ext) [0..<length (states @ ext)]) ts1 (queue' @ ext)
          = Some (Inr (states', zip states' [0..<length states'], ts', []))"
        "lr0_inv g s0 (states', zip states' [0..<length states'], ts', [])"
        "lr0_done states' ts' []"
      by blast
    have "lr0_loop g states si ts queue
        = lr0_loop g (states @ ext) (zip (states @ ext) [0..<length (states @ ext)]) ts1 (queue' @ ext)"
      by (subst lr0_loop.simps) (simp add: Cons lookup fold)
    with res show ?thesis by auto
  qed
qed

text \<open>
  The result of the construction for a grammar whose first nonterminal has a first
  production, in the terms of the item sets above.
\<close>

lemma generate_lr0_items_correct:
  assumes "first_key g = Some start" and "map_of g start = Some (production # others)"
  shows "\<exists>states transitions.
      generate_lr0_items g = Some (Inr (states, transitions))
    \<and> states \<noteq> [] \<and> set (states ! 0) = item_closure g {(start, production, 0)}
    \<and> distinct (map fst transitions)
    \<and> (\<forall>i sy j. map_of transitions (i, sy) = Some j \<longrightarrow>
          i < length states \<and> j < length states \<and> sy \<in> symbols_of (set (states ! i))
          \<and> set (states ! j) = goto_set g (set (states ! i)) sy)
    \<and> (\<forall>i < length states. \<forall>sy \<in> symbols_of (set (states ! i)).
          map_of transitions (i, sy) \<noteq> None)
    \<and> (\<forall>i < length states. set (states ! i) \<in> reachable_sets g (set (states ! 0)))
    \<and> (\<forall>X \<in> reachable_sets g (set (states ! 0)).
          \<exists>!i. i < length states \<and> set (states ! i) = X)"
proof -
  let ?s0 = "closure [(start, production, 0)] g"
  have s0_set: "set ?s0 = item_closure g {(start, production, 0)}"
    by (simp add: set_closure)
  have "(start, production, 0) \<in> all_items g"
    using assms(2) by (auto simp: all_items_def)
  then have s0_items: "set ?s0 \<subseteq> all_items g"
    by (simp add: s0_set item_closure_all_items)
  have si0: "fs_update ?s0 (0::nat) [] = zip [?s0] [0..<length [?s0]]" by simp
  have inv0: "lr0_inv g ?s0 ([?s0], fs_update ?s0 0 [], [], [?s0])"
    unfolding si0 using s0_items by (auto simp: lr0_inv_def intro: reachable_sets.initial)
  have done0: "lr0_done [?s0] [] [?s0]" by (simp add: lr0_done_def)
  from lr0_loop_correct [OF inv0 done0] obtain states ts where
    loop: "lr0_loop g [?s0] (fs_update ?s0 0 []) [] [?s0]
        = Some (Inr (states, zip states [0..<length states], ts, []))"
    and inv: "lr0_inv g ?s0 (states, zip states [0..<length states], ts, [])"
    and fin: "lr0_done states ts []"
    by blast
  have gen: "generate_lr0_items g = Some (Inr (states, ts))"
    using assms loop by (simp add: generate_lr0_items_def Let_def)
  have first: "states \<noteq> []" "states ! 0 = ?s0" using inv by (auto simp: lr0_inv_def)
  have det: "distinct (map fst ts)" using inv by (simp add: lr0_inv_def)
  have distinct_sets: "\<And>a b. a < length states \<Longrightarrow> b < length states
      \<Longrightarrow> set (states ! a) = set (states ! b) \<Longrightarrow> a = b"
    using inv by (auto simp: lr0_inv_def)
  have edges: "i < length states \<and> j < length states \<and> sy \<in> symbols_of (set (states ! i))
      \<and> set (states ! j) = goto_set g (set (states ! i)) sy" if "map_of ts (i, sy) = Some j" for i sy j
  proof -
    have "((i, sy), j) \<in> set ts" using that by (rule map_of_SomeD)
    then show ?thesis using inv by (auto simp: lr0_inv_def)
  qed
  have total: "map_of ts (i, sy) \<noteq> None"
    if "i < length states" "sy \<in> symbols_of (set (states ! i))" for i sy
  proof -
    have "(i, sy) \<in> fst ` set ts"
      using fin that by (auto simp: lr0_done_def)
    then show ?thesis by (simp add: map_of_eq_None_iff)
  qed
  have reach: "set (states ! i) \<in> reachable_sets g (set (states ! 0))" if "i < length states" for i
    using inv that first by (auto simp: lr0_inv_def)
  have found: "\<exists>i. i < length states \<and> set (states ! i) = X"
    if "X \<in> reachable_sets g (set (states ! 0))" for X
    using that
  proof (induction rule: reachable_sets.induct)
    case initial
    then show ?case using first by (intro exI [of _ 0]) simp
  next
    case (successor X sy)
    then obtain i where i: "i < length states" "set (states ! i) = X" by blast
    have "sy \<in> symbols_of (set (states ! i))"
      using successor.hyps(2) i by simp
    from total [OF i(1) this] obtain j where j: "map_of ts (i, sy) = Some j" by auto
    from edges [OF j] have "j < length states" "set (states ! j) = goto_set g X sy"
      using i by simp_all
    then show ?case by blast
  qed
  have unique: "\<exists>!i. i < length states \<and> set (states ! i) = X"
    if "X \<in> reachable_sets g (set (states ! 0))" for X
  proof -
    from found [OF that] obtain i where i: "i < length states" "set (states ! i) = X" by blast
    show ?thesis
    proof (rule ex1I [of _ i])
      show "i < length states \<and> set (states ! i) = X" using i by simp
    next
      fix j assume "j < length states \<and> set (states ! j) = X"
      then show "j = i" using i distinct_sets [of j i] by simp
    qed
  qed
  have zero: "set (states ! 0) = item_closure g {(start, production, 0)}"
    using first s0_set by simp
  have edges': "\<forall>i sy j. map_of ts (i, sy) = Some j \<longrightarrow>
      i < length states \<and> j < length states \<and> sy \<in> symbols_of (set (states ! i))
      \<and> set (states ! j) = goto_set g (set (states ! i)) sy"
    using edges by (intro allI impI)
  have total': "\<forall>i < length states. \<forall>sy \<in> symbols_of (set (states ! i)). map_of ts (i, sy) \<noteq> None"
    using total by (intro allI impI ballI)
  have reach': "\<forall>i < length states. set (states ! i) \<in> reachable_sets g (set (states ! 0))"
    using reach by (intro allI impI)
  have unique': "\<forall>X \<in> reachable_sets g (set (states ! 0)).
      \<exists>!i. i < length states \<and> set (states ! i) = X"
    using unique by (intro ballI)
  show ?thesis
    by (rule exI [of _ states], rule exI [of _ ts])
      (intro conjI gen first(1) zero det edges' total' reach' unique')
qed

text \<open>
  The entry of \<^verbatim>\<open>S'\<close> in the augmented grammar of a grammar that has no nonterminal of
  that name: it comes first and holds the single production to the first nonterminal.
\<close>

lemma first_key_update: "d \<noteq> [] \<Longrightarrow> first_key (AList.update k v d) = first_key d"
  by (cases d) (auto simp: first_key_def)

lemma update_nonempty: "AList.update k v d \<noteq> []"
  by (cases d) auto

lemma fold_update_first_key:
  "d \<noteq> [] \<Longrightarrow> fold (\<lambda>(k, v). AList.update k v) g d \<noteq> []
    \<and> first_key (fold (\<lambda>(k, v). AList.update k v) g d) = first_key d"
proof (induction g arbitrary: d)
  case Nil
  then show ?case by simp
next
  case (Cons kv g)
  obtain k v where kv: "kv = (k, v)" by (cases kv)
  show ?case
    using Cons.IH [of "AList.update k v d"] Cons.prems
    by (simp add: kv update_nonempty first_key_update)
qed

lemma fold_update_other_key:
  "k \<notin> fst ` set g \<Longrightarrow> map_of (fold (\<lambda>(k, v). AList.update k v) g d) k = map_of d k"
proof (induction g arbitrary: d)
  case Nil
  then show ?case by simp
next
  case (Cons kv g)
  obtain k' v where kv: "kv = (k', v)" by (cases kv)
  have "k' \<noteq> k" and "k \<notin> fst ` set g" using Cons.prems by (auto simp: kv)
  then show ?case
    using Cons.IH [of "AList.update k' v d"] by (simp add: kv update_conv')
qed

lemma augment_grammar_start:
  assumes "augment_grammar grammar = Inr augmented_grammar"
    and "S_prime \<notin> fst ` set grammar"
  shows "\<exists>start_symbol. first_key grammar = Some start_symbol
    \<and> first_key augmented_grammar = Some S_prime
    \<and> map_of augmented_grammar S_prime = Some [[start_symbol]]"
proof -
  from assms(1) obtain start where start: "first_key grammar = Some start"
    and ag: "augmented_grammar = fold (\<lambda>(k, v). AList.update k v) grammar [(S_prime, [[start]])]"
    by (auto simp: augment_grammar_def dict_update_def split: option.splits if_splits)
  have "first_key augmented_grammar = Some S_prime"
    using fold_update_first_key [of "[(S_prime, [[start]])]" grammar]
    by (simp add: ag first_key_def)
  moreover have "map_of augmented_grammar S_prime = Some [[start]]"
    using fold_update_other_key [OF assms(2), of "[(S_prime, [[start]])]"] by (simp add: ag)
  ultimately show ?thesis using start by blast
qed

text \<open>
  Claim C6. For the augmented grammar of every grammar that has no nonterminal \<^verbatim>\<open>S'\<close>
  (so that the new start symbol is new and has the single production to the first
  nonterminal), \<^verbatim>\<open>generate_lr0_items\<close> returns: the loop ends and raises nothing. State 0
  holds the closure of the initial item, \<^verbatim>\<open>S'\<close> with the dot before the first nonterminal.
  The transitions have at most one target for a state and a symbol (their keys are
  distinct); they lead from an enumerated state, on a symbol right after one of its
  dots, to the enumerated state that holds the \<open>goto_set\<close>, and there is one for every
  such symbol. Every enumerated state holds a reachable item set, and every reachable
  item set is held by the state of exactly one number, so equal item sets have the
  same number. Closure, goto and reachability are those defined on item sets above, not
  the functions of the script.
\<close>

theorem lr0_automaton_deterministic_and_complete:
  assumes "augment_grammar grammar = Inr augmented_grammar"
    and "S_prime \<notin> fst ` set grammar"
  shows "\<exists>states transitions start_symbol.
      first_key grammar = Some start_symbol
    \<and> generate_lr0_items augmented_grammar = Some (Inr (states, transitions))
    \<and> states \<noteq> []
    \<and> set (states ! 0) = item_closure augmented_grammar {(S_prime, [start_symbol], 0)}
    \<and> distinct (map fst transitions)
    \<and> (\<forall>i sy j. map_of transitions (i, sy) = Some j \<longrightarrow>
          i < length states \<and> j < length states \<and> sy \<in> symbols_of (set (states ! i))
          \<and> set (states ! j) = goto_set augmented_grammar (set (states ! i)) sy)
    \<and> (\<forall>i < length states. \<forall>sy \<in> symbols_of (set (states ! i)).
          map_of transitions (i, sy) \<noteq> None)
    \<and> (\<forall>i < length states.
          set (states ! i) \<in> reachable_sets augmented_grammar (set (states ! 0)))
    \<and> (\<forall>X \<in> reachable_sets augmented_grammar (set (states ! 0)).
          \<exists>!i. i < length states \<and> set (states ! i) = X)"
proof -
  from augment_grammar_start [OF assms] obtain start_symbol where
    start: "first_key grammar = Some start_symbol"
    and fk: "first_key augmented_grammar = Some S_prime"
    and p: "map_of augmented_grammar S_prime = Some [[start_symbol]]"
    by blast
  from generate_lr0_items_correct [OF fk p] obtain states transitions where
    facts: "generate_lr0_items augmented_grammar = Some (Inr (states, transitions))
      \<and> states \<noteq> []
      \<and> set (states ! 0) = item_closure augmented_grammar {(S_prime, [start_symbol], 0)}
      \<and> distinct (map fst transitions)
      \<and> (\<forall>i sy j. map_of transitions (i, sy) = Some j \<longrightarrow>
            i < length states \<and> j < length states \<and> sy \<in> symbols_of (set (states ! i))
            \<and> set (states ! j) = goto_set augmented_grammar (set (states ! i)) sy)
      \<and> (\<forall>i < length states. \<forall>sy \<in> symbols_of (set (states ! i)).
            map_of transitions (i, sy) \<noteq> None)
      \<and> (\<forall>i < length states.
            set (states ! i) \<in> reachable_sets augmented_grammar (set (states ! 0)))
      \<and> (\<forall>X \<in> reachable_sets augmented_grammar (set (states ! 0)).
            \<exists>!i. i < length states \<and> set (states ! i) = X)"
    by (elim exE)
  show ?thesis
    by (rule exI [of _ states], rule exI [of _ transitions], rule exI [of _ start_symbol])
      (rule conjI [OF start facts])
qed

text \<open>The grammar that the script shows in its text area at the start.\<close>

definition default_grammar :: grammar where
  "default_grammar =
     [(str ''E'', [[str ''E'', str ''+'', str ''T''], [str ''T'']]),
      (str ''T'', [[str ''T'', str ''*'', str ''F''], [str ''F'']]),
      (str ''F'', [[str ''('', str ''E'', str '')''], [str ''id'']])]"

theorem lr0_automaton_deterministic_and_complete_witness:
  "\<exists>states transitions start_symbol.
      (start_symbol = str ''E'' \<and> length states = 12 \<and> length transitions = 22)
    \<and> first_key default_grammar = Some start_symbol
    \<and> generate_lr0_items ((S_prime, [[str ''E'']]) # default_grammar) = Some (Inr (states, transitions))
    \<and> states \<noteq> []
    \<and> set (states ! 0)
        = item_closure ((S_prime, [[str ''E'']]) # default_grammar) {(S_prime, [start_symbol], 0)}
    \<and> distinct (map fst transitions)
    \<and> (\<forall>i sy j. map_of transitions (i, sy) = Some j \<longrightarrow>
          i < length states \<and> j < length states \<and> sy \<in> symbols_of (set (states ! i))
          \<and> set (states ! j)
              = goto_set ((S_prime, [[str ''E'']]) # default_grammar) (set (states ! i)) sy)
    \<and> (\<forall>i < length states. \<forall>sy \<in> symbols_of (set (states ! i)).
          map_of transitions (i, sy) \<noteq> None)
    \<and> (\<forall>i < length states.
          set (states ! i)
            \<in> reachable_sets ((S_prime, [[str ''E'']]) # default_grammar) (set (states ! 0)))
    \<and> (\<forall>X \<in> reachable_sets ((S_prime, [[str ''E'']]) # default_grammar) (set (states ! 0)).
          \<exists>!i. i < length states \<and> set (states ! i) = X)"
proof -
  let ?ag = "(S_prime, [[str ''E'']]) # default_grammar"
  have a: "augment_grammar default_grammar = Inr ?ag"
    by code_simp
  have b: "S_prime \<notin> fst ` set default_grammar"
    by code_simp
  have c: "first_key default_grammar = Some (str ''E'')"
    by code_simp
  have d: "(case generate_lr0_items ?ag of
              Some (Inr (states, transitions)) \<Rightarrow> length states = 12 \<and> length transitions = 22
            | _ \<Rightarrow> False)"
    by code_simp
  from lr0_automaton_deterministic_and_complete [OF a b] obtain states transitions start_symbol where
    facts: "first_key default_grammar = Some start_symbol
      \<and> generate_lr0_items ?ag = Some (Inr (states, transitions))
      \<and> states \<noteq> []
      \<and> set (states ! 0) = item_closure ?ag {(S_prime, [start_symbol], 0)}
      \<and> distinct (map fst transitions)
      \<and> (\<forall>i sy j. map_of transitions (i, sy) = Some j \<longrightarrow>
            i < length states \<and> j < length states \<and> sy \<in> symbols_of (set (states ! i))
            \<and> set (states ! j) = goto_set ?ag (set (states ! i)) sy)
      \<and> (\<forall>i < length states. \<forall>sy \<in> symbols_of (set (states ! i)).
            map_of transitions (i, sy) \<noteq> None)
      \<and> (\<forall>i < length states. set (states ! i) \<in> reachable_sets ?ag (set (states ! 0)))
      \<and> (\<forall>X \<in> reachable_sets ?ag (set (states ! 0)).
            \<exists>!i. i < length states \<and> set (states ! i) = X)"
    by (elim exE)
  have e: "start_symbol = str ''E''" using facts c by simp
  have gen: "generate_lr0_items ?ag = Some (Inr (states, transitions))" using facts by (elim conjE)
  have f: "length states = 12 \<and> length transitions = 22" using d gen by simp
  show ?thesis
    by (rule exI [of _ states], rule exI [of _ transitions], rule exI [of _ start_symbol])
      (rule conjI [OF conjI [OF e f] facts])
qed

end
